theory Spec2Isabelle
  imports Main
begin

section \<open>The timer service of the host\<close>

text \<open>
  The accessories call \<^verbatim>\<open>setTimeout\<close> and \<^verbatim>\<open>clearTimeout\<close> of the host runtime.
  The runtime is single threaded: a callback runs only between two handlers, never inside
  one. A handle is a fresh number; a timer set at time \<open>now\<close> with a delay of \<open>ms\<close>
  milliseconds is due at \<open>now + ms\<close>; clearing a handle whose timer has fired or was
  cleared before does nothing. Time is counted in milliseconds, and the service is taken
  as exact: it neither rounds a delay nor limits it.
\<close>

datatype 'cb timer = Timer (tid: nat) (due: nat) (cb: 'cb)

record 'cb loop =
  now :: nat
  next_id :: nat
  pending :: "'cb timer list"

definition setTimeout :: "'cb \<Rightarrow> nat \<Rightarrow> 'cb loop \<Rightarrow> nat \<times> 'cb loop" where
  "setTimeout f ms l =
     (next_id l,
      l\<lparr>next_id := Suc (next_id l),
        pending := pending l @ [Timer (next_id l) (now l + ms) f]\<rparr>)"

definition clearTimeout :: "nat \<Rightarrow> 'cb loop \<Rightarrow> 'cb loop" where
  "clearTimeout h l = l\<lparr>pending := filter (\<lambda>t. tid t \<noteq> h) (pending l)\<rparr>"

text \<open>The guard \<^verbatim>\<open>if (timer !== null) clearTimeout(timer)\<close> that all three files use.\<close>

definition clearIfSet :: "nat option \<Rightarrow> 'cb loop \<Rightarrow> 'cb loop" where
  "clearIfSet h l = (case h of None \<Rightarrow> l | Some i \<Rightarrow> clearTimeout i l)"

text \<open>
  The scheduler runs the pending timer that is due first; of two timers due at the same
  time the one set first runs first.
\<close>

fun earliest :: "'cb timer list \<Rightarrow> 'cb timer option" where
  "earliest [] = None"
| "earliest (t # ts) =
     (case earliest ts of
        None \<Rightarrow> Some t
      | Some u \<Rightarrow> if due u < due t then Some u else Some t)"

text \<open>The next timer to run before the limit \<open>lim\<close> (no limit: \<open>None\<close>).\<close>

definition next_timer :: "nat option \<Rightarrow> 'cb loop \<Rightarrow> 'cb timer option" where
  "next_timer lim l =
     (case earliest (pending l) of
        None \<Rightarrow> None
      | Some t \<Rightarrow>
          (case lim of
             None \<Rightarrow> Some t
           | Some T \<Rightarrow> if due t \<le> T then Some t else None))"

text \<open>Taking a timer off the list to run it: the clock moves to its due time.\<close>

definition take_timer :: "'cb timer \<Rightarrow> 'cb loop \<Rightarrow> 'cb loop" where
  "take_timer t l =
     l\<lparr>now := max (now l) (due t),
       pending := filter (\<lambda>u. tid u \<noteq> tid t) (pending l)\<rparr>"

definition idle_until :: "nat option \<Rightarrow> 'cb loop \<Rightarrow> 'cb loop" where
  "idle_until lim l = (case lim of None \<Rightarrow> l | Some T \<Rightarrow> l\<lparr>now := max (now l) T\<rparr>)"

text \<open>How many pending timers carry the callback \<open>f\<close>.\<close>

definition live :: "'cb \<Rightarrow> 'cb loop \<Rightarrow> nat" where
  "live f l = length (filter (\<lambda>t. cb t = f) (pending l))"


section \<open>The simple accessory: one trigger switch, a motion and an occupancy sensor\<close>

text \<open>
  \<^verbatim>\<open>src/accessory.ts\<close>. The configuration gives \<^verbatim>\<open>stateful\<close>, \<^verbatim>\<open>motionDelay\<close> and
  \<^verbatim>\<open>occupancyDelay\<close>, each of which may be absent; delays are whole seconds.
\<close>

record config =
  cfg_stateful :: "bool option"
  cfg_motionDelay :: "nat option"
  cfg_occupancyDelay :: "nat option"

text \<open>\<^verbatim>\<open>x || d\<close> on an optional number: an absent value and 0 are both falsy.\<close>

definition or_number :: "nat option \<Rightarrow> nat \<Rightarrow> nat" where
  "or_number x d = (case x of None \<Rightarrow> d | Some v \<Rightarrow> if v = 0 then d else v)"

definition or_bool :: "bool option \<Rightarrow> bool \<Rightarrow> bool" where
  "or_bool x d = (case x of None \<Rightarrow> d | Some v \<Rightarrow> if v then v else d)"

datatype callback = MotionDecay | PresenceDecay | TriggerReset

datatype sensor = Motion | Occupancy

record simple =
  stateful :: bool
  motionDelay :: nat
  occupancyDelay :: nat
  motionTimer :: "nat option"
  occupancyTimer :: "nat option"
  trigger :: bool
  motion :: bool
  presence :: bool
  updates :: "(sensor \<times> bool) list"
  loop :: "callback loop"

text \<open>The constructor; characteristics start at false, the timer fields at null.\<close>

definition Presence :: "config \<Rightarrow> simple" where
  "Presence config =
     \<lparr>stateful = or_bool (cfg_stateful config) False,
      motionDelay = or_number (cfg_motionDelay config) (60 * 60),
      occupancyDelay = or_number (cfg_occupancyDelay config) (12 * 60 * 60),
      motionTimer = None,
      occupancyTimer = None,
      trigger = False,
      motion = False,
      presence = False,
      updates = [],
      loop = \<lparr>now = 0, next_id = 0, pending = []\<rparr>\<rparr>"

text \<open>
  \<^verbatim>\<open>updateValue\<close> of a sensor characteristic stores the value and notifies the
  subscribers; \<open>updates\<close> records the notifications in order.
\<close>

definition motion_updateValue :: "bool \<Rightarrow> simple \<Rightarrow> simple" where
  "motion_updateValue v s = s\<lparr>motion := v, updates := updates s @ [(Motion, v)]\<rparr>"

definition presence_updateValue :: "bool \<Rightarrow> simple \<Rightarrow> simple" where
  "presence_updateValue v s = s\<lparr>presence := v, updates := updates s @ [(Occupancy, v)]\<rparr>"

definition onTrigger :: "bool \<Rightarrow> simple \<Rightarrow> simple" where
  "onTrigger val s =
     (if val then
        let s1 = motion_updateValue True s;
            s2 = presence_updateValue True s1;
            s3 = s2\<lparr>loop := clearIfSet (motionTimer s2) (loop s2)\<rparr>;
            s4 = s3\<lparr>loop := clearIfSet (occupancyTimer s3) (loop s3)\<rparr>
        in if \<not> stateful s4
           then s4\<lparr>loop := snd (setTimeout TriggerReset 1000 (loop s4))\<rparr>
           else s4
      else
        let (h1, l1) = setTimeout MotionDecay (motionDelay s * 1000) (loop s);
            s1 = s\<lparr>motionTimer := Some h1, loop := l1\<rparr>;
            (h2, l2) = setTimeout PresenceDecay (occupancyDelay s1 * 1000) (loop s1)
        in s1\<lparr>occupancyTimer := Some h2, loop := l2\<rparr>)"

text \<open>
  A write to the trigger switch, from outside or by \<^verbatim>\<open>setValue\<close>, runs the handler
  registered with \<^verbatim>\<open>onSet\<close> and stores the value.
\<close>

definition trigger_setValue :: "bool \<Rightarrow> simple \<Rightarrow> simple" where
  "trigger_setValue v s = (onTrigger v s)\<lparr>trigger := v\<rparr>"

fun fire :: "callback \<Rightarrow> simple \<Rightarrow> simple" where
  "fire MotionDecay s = motion_updateValue False s"
| "fire PresenceDecay s = presence_updateValue False s"
| "fire TriggerReset s = trigger_setValue False s"

text \<open>
  The measure of the scheduler loop: a reset of the switch sets two decay timers when it
  runs, a decay timer sets none.
\<close>

fun weight :: "callback \<Rightarrow> nat" where
  "weight TriggerReset = 3"
| "weight MotionDecay = 1"
| "weight PresenceDecay = 1"

definition load :: "simple \<Rightarrow> nat" where
  "load s = sum_list (map (\<lambda>t. weight (cb t)) (pending (loop s)))"

lemma earliest_mem: "earliest ts = Some t \<Longrightarrow> t \<in> set ts"
  by (induction ts arbitrary: t) (auto split: option.splits if_splits)

lemma earliest_None: "earliest ts = None \<longleftrightarrow> ts = []"
  by (cases ts) (auto split: option.splits)

lemma next_timer_mem: "next_timer lim l = Some t \<Longrightarrow> t \<in> set (pending l)"
  by (auto simp: next_timer_def earliest_mem split: option.splits if_splits)

lemma sum_list_filter_less:
  fixes g :: "'a \<Rightarrow> nat"
  assumes "t \<in> set ts" and "\<not> P t"
  shows "sum_list (map g (filter P ts)) + g t \<le> sum_list (map g ts)"
  using assms by (induction ts) (auto simp: add.commute add_le_mono trans_le_add1 sum_list_filter_le_nat)

lemma load_take_timer:
  assumes "t \<in> set (pending (loop s))"
  shows "load (s\<lparr>loop := take_timer t (loop s)\<rparr>) + weight (cb t) \<le> load s"
  using sum_list_filter_less [of t "pending (loop s)" "\<lambda>u. tid u \<noteq> tid t" "\<lambda>u. weight (cb u)"] assms
  by (simp add: load_def take_timer_def)

lemma load_fire: "load (fire f s) + 1 = load s + weight f"
  by (cases f)
    (simp_all add: load_def motion_updateValue_def presence_updateValue_def
      trigger_setValue_def onTrigger_def setTimeout_def Let_def)

text \<open>One turn of the scheduler: the next timer, if there is one, is taken and run.\<close>

definition step :: "nat option \<Rightarrow> simple \<Rightarrow> simple option" where
  "step lim s =
     (case next_timer lim (loop s) of
        None \<Rightarrow> None
      | Some t \<Rightarrow> Some (fire (cb t) (s\<lparr>loop := take_timer t (loop s)\<rparr>)))"

lemma load_step:
  assumes "step lim s = Some s'"
  shows "load s' < load s"
proof -
  from assms obtain t where nt: "next_timer lim (loop s) = Some t"
    and s': "s' = fire (cb t) (s\<lparr>loop := take_timer t (loop s)\<rparr>)"
    by (auto simp: step_def split: option.splits)
  have "t \<in> set (pending (loop s))"
    using nt by (rule next_timer_mem)
  then have a: "load (s\<lparr>loop := take_timer t (loop s)\<rparr>) + weight (cb t) \<le> load s"
    by (rule load_take_timer)
  have b: "load (fire (cb t) (s\<lparr>loop := take_timer t (loop s)\<rparr>)) + 1
             = load (s\<lparr>loop := take_timer t (loop s)\<rparr>) + weight (cb t)"
    by (rule load_fire)
  from a b s' show ?thesis by arith
qed

text \<open>
  The scheduler: it runs the pending timers in order, up to the time \<open>lim\<close>, or until
  none is left when there is no limit.
\<close>

function run :: "nat option \<Rightarrow> simple \<Rightarrow> simple" where
  "run lim s =
     (case step lim s of
        None \<Rightarrow> s\<lparr>loop := idle_until lim (loop s)\<rparr>
      | Some s' \<Rightarrow> run lim s')"
  by pat_completeness auto
termination
  by (relation "measure (\<lambda>(lim, s). load s)") (simp_all add: load_step)

declare run.simps [simp del]

text \<open>
  What happens to the accessory: the switch is written, or time passes. \<open>settle\<close> waits
  until no timer is left.
\<close>

datatype event = Set bool | Wait nat

fun handle :: "event \<Rightarrow> simple \<Rightarrow> simple" where
  "handle (Set v) s = trigger_setValue v s"
| "handle (Wait ms) s = run (Some (now (loop s) + ms)) s"

definition exec :: "event list \<Rightarrow> simple \<Rightarrow> simple" where
  "exec evs s = fold handle evs s"

definition settle :: "simple \<Rightarrow> simple" where
  "settle s = run None s"


section \<open>The accessory with two switches: a motion switch and an occupancy switch\<close>

text \<open>
  The second file of the repository: the same fields, a switch for motion and one for
  occupancy, each with its own handler. Both handlers clear the two timers first.
\<close>

datatype d_callback = D_MotionDecay | D_OccupancyDecay | D_MotionTriggerReset

datatype d_characteristic = D_MotionTrigger | D_Motion | D_OccupancyTrigger | D_Occupancy

record dual =
  d_stateful :: bool
  d_motionDelay :: nat
  d_occupancyDelay :: nat
  d_motionTimer :: "nat option"
  d_occupancyTimer :: "nat option"
  d_motionTrigger :: bool
  d_motion :: bool
  d_occupancyTrigger :: bool
  d_occupancy :: bool
  d_updates :: "(d_characteristic \<times> bool) list"
  d_loop :: "d_callback loop"

definition d_Presence :: "config \<Rightarrow> dual" where
  "d_Presence config =
     \<lparr>d_stateful = or_bool (cfg_stateful config) False,
      d_motionDelay = or_number (cfg_motionDelay config) (60 * 60),
      d_occupancyDelay = or_number (cfg_occupancyDelay config) (12 * 60 * 60),
      d_motionTimer = None,
      d_occupancyTimer = None,
      d_motionTrigger = False,
      d_motion = False,
      d_occupancyTrigger = False,
      d_occupancy = False,
      d_updates = [],
      d_loop = \<lparr>now = 0, next_id = 0, pending = []\<rparr>\<rparr>"

fun d_updateValue :: "d_characteristic \<Rightarrow> bool \<Rightarrow> dual \<Rightarrow> dual" where
  "d_updateValue D_MotionTrigger v s =
     s\<lparr>d_motionTrigger := v, d_updates := d_updates s @ [(D_MotionTrigger, v)]\<rparr>"
| "d_updateValue D_Motion v s =
     s\<lparr>d_motion := v, d_updates := d_updates s @ [(D_Motion, v)]\<rparr>"
| "d_updateValue D_OccupancyTrigger v s =
     s\<lparr>d_occupancyTrigger := v, d_updates := d_updates s @ [(D_OccupancyTrigger, v)]\<rparr>"
| "d_updateValue D_Occupancy v s =
     s\<lparr>d_occupancy := v, d_updates := d_updates s @ [(D_Occupancy, v)]\<rparr>"

text \<open>The first lines of both handlers.\<close>

definition d_clearTimers :: "dual \<Rightarrow> dual" where
  "d_clearTimers s =
     (let s1 = s\<lparr>d_loop := clearIfSet (d_motionTimer s) (d_loop s)\<rparr>
      in s1\<lparr>d_loop := clearIfSet (d_occupancyTimer s1) (d_loop s1)\<rparr>)"

definition onMotion :: "bool \<Rightarrow> dual \<Rightarrow> dual" where
  "onMotion val s =
     (let s2 = d_clearTimers s
      in if val then
           let s3 = d_updateValue D_Motion True s2;
               s4 = d_updateValue D_Occupancy True s3;
               s5 = d_updateValue D_OccupancyTrigger True s4
           in if \<not> d_stateful s5
              then s5\<lparr>d_loop := snd (setTimeout D_MotionTriggerReset 1000 (d_loop s5))\<rparr>
              else s5
         else
           let (h, l) = setTimeout D_MotionDecay (d_motionDelay s2 * 1000) (d_loop s2)
           in s2\<lparr>d_motionTimer := Some h, d_loop := l\<rparr>)"

definition onOccupancy :: "bool \<Rightarrow> dual \<Rightarrow> dual" where
  "onOccupancy val s =
     (let s2 = d_clearTimers s
      in if val then d_updateValue D_Occupancy True s2
         else
           let s3 = d_updateValue D_Motion False s2;
               s4 = d_updateValue D_MotionTrigger False s3;
               (h, l) = setTimeout D_OccupancyDecay (d_occupancyDelay s4 * 1000) (d_loop s4)
           in s4\<lparr>d_occupancyTimer := Some h, d_loop := l\<rparr>)"

text \<open>A write to a switch runs its handler and stores the value.\<close>

definition motionTrigger_setValue :: "bool \<Rightarrow> dual \<Rightarrow> dual" where
  "motionTrigger_setValue v s = (onMotion v s)\<lparr>d_motionTrigger := v\<rparr>"

definition occupancyTrigger_setValue :: "bool \<Rightarrow> dual \<Rightarrow> dual" where
  "occupancyTrigger_setValue v s = (onOccupancy v s)\<lparr>d_occupancyTrigger := v\<rparr>"

fun d_fire :: "d_callback \<Rightarrow> dual \<Rightarrow> dual" where
  "d_fire D_MotionDecay s = d_updateValue D_Motion False s"
| "d_fire D_OccupancyDecay s = d_updateValue D_Occupancy False s"
| "d_fire D_MotionTriggerReset s = motionTrigger_setValue False s"

fun d_weight :: "d_callback \<Rightarrow> nat" where
  "d_weight D_MotionTriggerReset = 2"
| "d_weight D_MotionDecay = 1"
| "d_weight D_OccupancyDecay = 1"

definition d_load :: "dual \<Rightarrow> nat" where
  "d_load s = sum_list (map (\<lambda>t. d_weight (cb t)) (pending (d_loop s)))"

lemma d_load_clearTimers: "d_load (d_clearTimers s) \<le> d_load s"
proof -
  have a: "sum_list (map (\<lambda>t. d_weight (cb t)) (pending (clearIfSet h l)))
             \<le> sum_list (map (\<lambda>t. d_weight (cb t)) (pending l))" for h and l :: "d_callback loop"
    by (cases h) (simp_all add: clearIfSet_def clearTimeout_def sum_list_filter_le_nat)
  show ?thesis
    unfolding d_load_def d_clearTimers_def Let_def
    using a [of "d_occupancyTimer s" "clearIfSet (d_motionTimer s) (d_loop s)"]
      a [of "d_motionTimer s" "d_loop s"]
    by simp
qed

lemma d_load_fire: "d_load (d_fire f s) + 1 \<le> d_load s + d_weight f"
proof (cases f)
  case D_MotionTriggerReset
  have "d_load (onMotion False s) = d_load (d_clearTimers s) + 1"
    by (simp add: onMotion_def Let_def setTimeout_def d_load_def split: prod.splits)
  with d_load_clearTimers [of s] D_MotionTriggerReset show ?thesis
    by (simp add: motionTrigger_setValue_def d_load_def)
qed (simp_all add: d_load_def)

definition d_step :: "nat option \<Rightarrow> dual \<Rightarrow> dual option" where
  "d_step lim s =
     (case next_timer lim (d_loop s) of
        None \<Rightarrow> None
      | Some t \<Rightarrow> Some (d_fire (cb t) (s\<lparr>d_loop := take_timer t (d_loop s)\<rparr>)))"

lemma d_load_step:
  assumes "d_step lim s = Some s'"
  shows "d_load s' < d_load s"
proof -
  from assms obtain t where nt: "next_timer lim (d_loop s) = Some t"
    and s': "s' = d_fire (cb t) (s\<lparr>d_loop := take_timer t (d_loop s)\<rparr>)"
    by (auto simp: d_step_def split: option.splits)
  have "t \<in> set (pending (d_loop s))"
    using nt by (rule next_timer_mem)
  then have a: "d_load (s\<lparr>d_loop := take_timer t (d_loop s)\<rparr>) + d_weight (cb t) \<le> d_load s"
    using sum_list_filter_less [of t "pending (d_loop s)" "\<lambda>u. tid u \<noteq> tid t" "\<lambda>u. d_weight (cb u)"]
    by (simp add: d_load_def take_timer_def)
  have b: "d_load (d_fire (cb t) (s\<lparr>d_loop := take_timer t (d_loop s)\<rparr>)) + 1
             \<le> d_load (s\<lparr>d_loop := take_timer t (d_loop s)\<rparr>) + d_weight (cb t)"
    by (rule d_load_fire)
  from a b s' show ?thesis by arith
qed

function d_run :: "nat option \<Rightarrow> dual \<Rightarrow> dual" where
  "d_run lim s =
     (case d_step lim s of
        None \<Rightarrow> s\<lparr>d_loop := idle_until lim (d_loop s)\<rparr>
      | Some s' \<Rightarrow> d_run lim s')"
  by pat_completeness auto
termination
  by (relation "measure (\<lambda>(lim, s). d_load s)") (simp_all add: d_load_step)

declare d_run.simps [simp del]

datatype d_event = MotionSet bool | OccupancySet bool | D_Wait nat

fun d_handle :: "d_event \<Rightarrow> dual \<Rightarrow> dual" where
  "d_handle (MotionSet v) s = motionTrigger_setValue v s"
| "d_handle (OccupancySet v) s = occupancyTrigger_setValue v s"
| "d_handle (D_Wait ms) s = d_run (Some (now (d_loop s) + ms)) s"

definition d_exec :: "d_event list \<Rightarrow> dual \<Rightarrow> dual" where
  "d_exec evs s = fold d_handle evs s"


section \<open>The accessory with one switch and a list of occupancy sensors\<close>

text \<open>
  The third file of the repository: the configuration lists triggers, each with a name
  and a delay in seconds; a \<^verbatim>\<open>Trigger\<close> object holds its occupancy sensor and its timer.
  A callback refers to its trigger object, here by the position in the list.
\<close>

record trigger_obj =
  t_name :: string
  delay :: nat
  timer :: "nat option"
  occupancy :: bool

datatype f_callback = SetOccupancyFalse nat | SwitchOff

record fanout =
  triggers :: "trigger_obj list"
  switch :: bool
  f_updates :: "(nat \<times> bool) list"
  f_loop :: "f_callback loop"

definition Trigger :: "string \<Rightarrow> nat \<Rightarrow> trigger_obj" where
  "Trigger name d = \<lparr>t_name = name, delay = d, timer = None, occupancy = False\<rparr>"

definition f_Presence :: "(string \<times> nat) list \<Rightarrow> fanout" where
  "f_Presence config_triggers =
     \<lparr>triggers = map (\<lambda>(name, d). Trigger name d) config_triggers,
      switch = False,
      f_updates = [],
      f_loop = \<lparr>now = 0, next_id = 0, pending = []\<rparr>\<rparr>"

definition setOccupancy :: "nat \<Rightarrow> bool \<Rightarrow> fanout \<Rightarrow> fanout" where
  "setOccupancy i v s =
     s\<lparr>triggers := (triggers s)[i := (triggers s ! i)\<lparr>occupancy := v\<rparr>],
       f_updates := f_updates s @ [(i, v)]\<rparr>"

text \<open>The body of the \<^verbatim>\<open>forEach\<close>, for the trigger at position \<open>i\<close>.\<close>

definition arm :: "nat \<Rightarrow> fanout \<Rightarrow> fanout" where
  "arm i s =
     (let s1 = setOccupancy i True s;
          s2 = s1\<lparr>f_loop := clearIfSet (timer (triggers s1 ! i)) (f_loop s1)\<rparr>;
          (h, l) = setTimeout (SetOccupancyFalse i) (delay (triggers s2 ! i) * 1000) (f_loop s2)
      in s2\<lparr>triggers := (triggers s2)[i := (triggers s2 ! i)\<lparr>timer := Some h\<rparr>],
            f_loop := l\<rparr>)"

text \<open>The handler of the switch; it does not read the value written.\<close>

definition onSet :: "bool \<Rightarrow> fanout \<Rightarrow> fanout" where
  "onSet val s =
     (let s1 = fold arm [0..<length (triggers s)] s
      in s1\<lparr>f_loop := snd (setTimeout SwitchOff 1000 (f_loop s1))\<rparr>)"

definition switch_set :: "bool \<Rightarrow> fanout \<Rightarrow> fanout" where
  "switch_set v s = (onSet v s)\<lparr>switch := v\<rparr>"

fun f_fire :: "f_callback \<Rightarrow> fanout \<Rightarrow> fanout" where
  "f_fire (SetOccupancyFalse i) s = setOccupancy i False s"
| "f_fire SwitchOff s = s\<lparr>switch := False\<rparr>"

lemma f_pending_fire: "pending (f_loop (f_fire f s)) = pending (f_loop s)"
  by (cases f) (simp_all add: setOccupancy_def)

lemma length_filter_take:
  assumes "t \<in> set ts"
  shows "length (filter (\<lambda>u. tid u \<noteq> tid t) ts) < length ts"
  using assms length_filter_less [of t ts "\<lambda>u. tid u \<noteq> tid t"] by simp

definition f_step :: "nat option \<Rightarrow> fanout \<Rightarrow> fanout option" where
  "f_step lim s =
     (case next_timer lim (f_loop s) of
        None \<Rightarrow> None
      | Some t \<Rightarrow> Some (f_fire (cb t) (s\<lparr>f_loop := take_timer t (f_loop s)\<rparr>)))"

lemma f_length_step:
  assumes "f_step lim s = Some s'"
  shows "length (pending (f_loop s')) < length (pending (f_loop s))"
  using assms
  by (auto simp: f_step_def f_pending_fire take_timer_def length_filter_take next_timer_mem
      split: option.splits)

function f_run :: "nat option \<Rightarrow> fanout \<Rightarrow> fanout" where
  "f_run lim s =
     (case f_step lim s of
        None \<Rightarrow> s\<lparr>f_loop := idle_until lim (f_loop s)\<rparr>
      | Some s' \<Rightarrow> f_run lim s')"
  by pat_completeness auto
termination
  by (relation "measure (\<lambda>(lim, s). length (pending (f_loop s)))")
    (simp_all add: f_length_step)

declare f_run.simps [simp del]

datatype f_event = SwitchSet bool | F_Wait nat

fun f_handle :: "f_event \<Rightarrow> fanout \<Rightarrow> fanout" where
  "f_handle (SwitchSet v) s = switch_set v s"
| "f_handle (F_Wait ms) s = f_run (Some (now (f_loop s) + ms)) s"

definition f_exec :: "f_event list \<Rightarrow> fanout \<Rightarrow> fanout" where
  "f_exec evs s = fold f_handle evs s"

definition f_settle :: "fanout \<Rightarrow> fanout" where
  "f_settle s = f_run None s"


section \<open>Evaluating scenarios\<close>

lemmas simple_eval = exec_def Presence_def trigger_setValue_def onTrigger_def setTimeout_def
  live_def or_bool_def or_number_def run.simps step_def next_timer_def take_timer_def
  idle_until_def clearIfSet_def clearTimeout_def motion_updateValue_def
  presence_updateValue_def settle_def Let_def

lemmas dual_eval = d_exec_def d_Presence_def motionTrigger_setValue_def
  occupancyTrigger_setValue_def onMotion_def onOccupancy_def d_clearTimers_def
  setTimeout_def live_def or_bool_def or_number_def d_run.simps d_step_def next_timer_def
  take_timer_def idle_until_def clearIfSet_def clearTimeout_def Let_def

lemmas fanout_eval = f_exec_def f_Presence_def Trigger_def switch_set_def onSet_def arm_def
  setOccupancy_def f_run.simps f_step_def next_timer_def take_timer_def idle_until_def
  clearIfSet_def clearTimeout_def setTimeout_def f_settle_def live_def Let_def upt_rec

text \<open>The configuration of the scenario with two triggers, A after 3 s and B after 10 s.\<close>

definition scenario_C :: "(string \<times> nat) list" where
  "scenario_C = [(''A'', 3), (''B'', 10)]"

section \<open>Facts about the timer service and the scheduler\<close>

text \<open>Handles are fresh: the pending timers have different handles, all handed out before.\<close>

definition wf_loop :: "'cb loop \<Rightarrow> bool" where
  "wf_loop l \<longleftrightarrow> distinct (map tid (pending l)) \<and> (\<forall>t \<in> set (pending l). tid t < next_id l)"

lemma wf_loop_setTimeout: "wf_loop l \<Longrightarrow> wf_loop (snd (setTimeout f ms l))"
  by (auto simp: wf_loop_def setTimeout_def less_Suc_eq)

lemma wf_loop_clearTimeout: "wf_loop l \<Longrightarrow> wf_loop (clearTimeout h l)"
  by (auto simp: wf_loop_def clearTimeout_def distinct_map_filter)

lemma wf_loop_clearIfSet: "wf_loop l \<Longrightarrow> wf_loop (clearIfSet h l)"
  by (cases h) (simp_all add: clearIfSet_def wf_loop_clearTimeout)

lemma wf_loop_take_timer: "wf_loop l \<Longrightarrow> wf_loop (take_timer t l)"
  by (auto simp: wf_loop_def take_timer_def distinct_map_filter)

lemma wf_loop_idle_until: "wf_loop l \<Longrightarrow> wf_loop (idle_until lim l)"
  by (cases lim) (simp_all add: wf_loop_def idle_until_def)

lemma wf_loop_same_tid:
  assumes "wf_loop l" and "t \<in> set (pending l)" and "u \<in> set (pending l)" and "tid u = tid t"
  shows "u = t"
  using assms by (auto simp: wf_loop_def distinct_map inj_on_def)

lemma pending_take_timer:
  assumes "wf_loop l" and "t \<in> set (pending l)"
  shows "set (pending (take_timer t l)) = set (pending l) - {t}"
  using assms wf_loop_same_tid [OF assms(1) assms(2)]
  by (auto simp: take_timer_def)

lemma earliest_le: "earliest ts = Some u \<Longrightarrow> t \<in> set ts \<Longrightarrow> due u \<le> due t"
  by (induction ts arbitrary: u) (auto split: option.splits if_splits simp: earliest_None)

lemma next_timer_None_limit:
  assumes "next_timer (Some T) l = None" and "t \<in> set (pending l)"
  shows "T < due t"
  using assms earliest_le [of "pending l" _ t]
  by (auto simp: next_timer_def earliest_None split: option.splits if_splits)

lemma next_timer_None_all: "next_timer None l = None \<longleftrightarrow> pending l = []"
  by (auto simp: next_timer_def earliest_None split: option.splits)

lemma run_rule:
  assumes "P s"
    and "\<And>s s'. P s \<Longrightarrow> step lim s = Some s' \<Longrightarrow> P s'"
    and "\<And>s. P s \<Longrightarrow> step lim s = None \<Longrightarrow> Q (s\<lparr>loop := idle_until lim (loop s)\<rparr>)"
  shows "Q (run lim s)"
  using assms
proof (induction lim s rule: run.induct)
  case (1 lim s)
  show ?case
  proof (cases "step lim s")
    case None
    have "Q (s\<lparr>loop := idle_until lim (loop s)\<rparr>)"
      using "1.prems"(1) None by (rule "1.prems"(3))
    then show ?thesis using None by (simp add: run.simps)
  next
    case (Some s')
    have "P s'" using "1.prems"(1) Some by (rule "1.prems"(2))
    then have "Q (run lim s')" using Some "1.IH" "1.prems"(2,3) by blast
    then show ?thesis using Some by (simp add: run.simps)
  qed
qed

section \<open>Facts about the simple accessory\<close>

lemma onTrigger_False_eq:
  "onTrigger False s =
     s\<lparr>motionTimer := Some (next_id (loop s)),
       occupancyTimer := Some (Suc (next_id (loop s))),
       loop := (loop s)\<lparr>next_id := Suc (Suc (next_id (loop s))),
         pending := pending (loop s) @
           [Timer (next_id (loop s)) (now (loop s) + motionDelay s * 1000) MotionDecay,
            Timer (Suc (next_id (loop s))) (now (loop s) + occupancyDelay s * 1000) PresenceDecay]\<rparr>\<rparr>"
  by (simp add: onTrigger_def setTimeout_def)

lemma pending_clearIfSet:
  "pending (clearIfSet h l) = filter (\<lambda>t. Some (tid t) \<noteq> h) (pending l)"
  by (cases h) (simp_all add: clearIfSet_def clearTimeout_def)

lemma now_clearIfSet [simp]: "now (clearIfSet h l) = now l"
  by (cases h) (simp_all add: clearIfSet_def clearTimeout_def)

lemma next_id_clearIfSet [simp]: "next_id (clearIfSet h l) = next_id l"
  by (cases h) (simp_all add: clearIfSet_def clearTimeout_def)

lemma onTrigger_True_pending:
  "pending (loop (onTrigger True s)) =
     filter (\<lambda>t. Some (tid t) \<noteq> motionTimer s \<and> Some (tid t) \<noteq> occupancyTimer s)
       (pending (loop s)) @
     (if stateful s then [] else [Timer (next_id (loop s)) (now (loop s) + 1000) TriggerReset])"
  by (simp add: onTrigger_def setTimeout_def Let_def pending_clearIfSet
      motion_updateValue_def presence_updateValue_def conj_commute)

lemma onTrigger_True_fields:
  "motion (onTrigger True s)" "presence (onTrigger True s)"
  "updates (onTrigger True s) = updates s @ [(Motion, True), (Occupancy, True)]"
  "trigger (onTrigger True s) = trigger s"
  "motionTimer (onTrigger True s) = motionTimer s"
  "occupancyTimer (onTrigger True s) = occupancyTimer s"
  by (simp_all add: onTrigger_def Let_def motion_updateValue_def presence_updateValue_def)

lemma onTrigger_config:
  "stateful (onTrigger v s) = stateful s"
  "motionDelay (onTrigger v s) = motionDelay s"
  "occupancyDelay (onTrigger v s) = occupancyDelay s"
  by (simp_all add: onTrigger_def Let_def motion_updateValue_def presence_updateValue_def
      split: prod.splits)

lemma fire_config:
  "stateful (fire f s) = stateful s"
  "motionDelay (fire f s) = motionDelay s"
  "occupancyDelay (fire f s) = occupancyDelay s"
  by (cases f; simp add: onTrigger_config trigger_setValue_def motion_updateValue_def
      presence_updateValue_def)+

lemma step_config:
  assumes "step lim s = Some s'"
  shows "stateful s' = stateful s \<and> motionDelay s' = motionDelay s \<and> occupancyDelay s' = occupancyDelay s"
  using assms by (auto simp: step_def fire_config split: option.splits)

lemma run_config:
  "stateful (run lim s) = stateful s \<and> motionDelay (run lim s) = motionDelay s \<and>
   occupancyDelay (run lim s) = occupancyDelay s"
  by (rule run_rule [where P = "\<lambda>u. stateful u = stateful s \<and> motionDelay u = motionDelay s \<and>
        occupancyDelay u = occupancyDelay s"])
    (simp_all add: step_config)

lemma handle_config:
  "stateful (handle e s) = stateful s \<and> motionDelay (handle e s) = motionDelay s \<and>
   occupancyDelay (handle e s) = occupancyDelay s"
  by (cases e) (simp_all add: run_config trigger_setValue_def onTrigger_config)


lemma onTrigger_True_loop:
  "loop (onTrigger True s) =
     (if stateful s
      then clearIfSet (occupancyTimer s) (clearIfSet (motionTimer s) (loop s))
      else snd (setTimeout TriggerReset 1000
        (clearIfSet (occupancyTimer s) (clearIfSet (motionTimer s) (loop s)))))"
  by (simp add: onTrigger_def Let_def motion_updateValue_def presence_updateValue_def)

lemma onTrigger_False_loop:
  "loop (onTrigger False s) =
     snd (setTimeout PresenceDecay (occupancyDelay s * 1000)
       (snd (setTimeout MotionDecay (motionDelay s * 1000) (loop s))))"
  by (simp add: onTrigger_def split_def Let_def)

lemma wf_onTrigger: "wf_loop (loop s) \<Longrightarrow> wf_loop (loop (onTrigger v s))"
  by (cases v)
    (simp_all add: onTrigger_True_loop onTrigger_False_loop wf_loop_clearIfSet
      wf_loop_setTimeout)

lemma wf_fire: "wf_loop (loop s) \<Longrightarrow> wf_loop (loop (fire f s))"
  by (cases f)
    (simp_all add: motion_updateValue_def presence_updateValue_def trigger_setValue_def
      wf_onTrigger)

lemma wf_step: "wf_loop (loop s) \<Longrightarrow> step lim s = Some s' \<Longrightarrow> wf_loop (loop s')"
  by (auto simp: step_def wf_fire wf_loop_take_timer split: option.splits)

lemma wf_run: "wf_loop (loop s) \<Longrightarrow> wf_loop (loop (run lim s))"
  by (rule run_rule [where P = "\<lambda>u. wf_loop (loop u)"])
    (simp_all add: wf_step wf_loop_idle_until)

lemma wf_handle: "wf_loop (loop s) \<Longrightarrow> wf_loop (loop (handle e s))"
  by (cases e) (simp_all add: wf_run trigger_setValue_def wf_onTrigger)

lemma wf_exec: "wf_loop (loop s) \<Longrightarrow> wf_loop (loop (exec evs s))"
  unfolding exec_def by (induction evs arbitrary: s) (simp_all add: wf_handle)

lemma wf_Presence: "wf_loop (loop (Presence cfg))"
  by (simp add: Presence_def wf_loop_def)

text \<open>
  A signal that is true is covered when a pending timer will turn it off: its decay
  timer, or the reset of the switch, whose handler sets the decay timers.
\<close>

definition covered :: "simple \<Rightarrow> bool" where
  "covered s \<longleftrightarrow>
     (motion s \<longrightarrow> (\<exists>t \<in> set (pending (loop s)). cb t = MotionDecay \<or> cb t = TriggerReset)) \<and>
     (presence s \<longrightarrow> (\<exists>t \<in> set (pending (loop s)). cb t = PresenceDecay \<or> cb t = TriggerReset))"

lemma covered_off: "covered (onTrigger False s)"
  by (simp add: covered_def onTrigger_False_eq)

lemma covered_on: "\<not> stateful s \<Longrightarrow> covered (onTrigger True s)"
  by (simp add: covered_def onTrigger_True_pending)

lemma covered_trigger [simp]: "covered (s\<lparr>trigger := v\<rparr>) = covered s"
  by (simp add: covered_def)

lemma covered_step:
  assumes wf: "wf_loop (loop s)" and c: "covered s" and st: "step lim s = Some s'"
  shows "covered s'"
proof -
  from st obtain t where nt: "next_timer lim (loop s) = Some t"
    and s': "s' = fire (cb t) (s\<lparr>loop := take_timer t (loop s)\<rparr>)"
    by (auto simp: step_def split: option.splits)
  have mem: "t \<in> set (pending (loop s))" using nt by (rule next_timer_mem)
  have rest: "set (pending (take_timer t (loop s))) = set (pending (loop s)) - {t}"
    using wf mem by (rule pending_take_timer)
  show ?thesis
  proof (cases "cb t")
    case MotionDecay
    have "presence s \<Longrightarrow> \<exists>u \<in> set (pending (loop s)) - {t}. cb u = PresenceDecay \<or> cb u = TriggerReset"
      using c MotionDecay unfolding covered_def by force
    then show ?thesis
      unfolding s' MotionDecay covered_def by (simp add: motion_updateValue_def rest)
  next
    case PresenceDecay
    have "motion s \<Longrightarrow> \<exists>u \<in> set (pending (loop s)) - {t}. cb u = MotionDecay \<or> cb u = TriggerReset"
      using c PresenceDecay unfolding covered_def by force
    then show ?thesis
      unfolding s' PresenceDecay covered_def by (simp add: presence_updateValue_def rest)
  next
    case TriggerReset
    show ?thesis
      unfolding s' TriggerReset by (simp add: trigger_setValue_def covered_off)
  qed
qed

lemma covered_run:
  assumes "wf_loop (loop s)" and "covered s"
  shows "covered (run lim s)"
proof (rule run_rule [where P = "\<lambda>u. wf_loop (loop u) \<and> covered u"])
  show "wf_loop (loop s) \<and> covered s" using assms by simp
next
  fix u u' assume "wf_loop (loop u) \<and> covered u" and "step lim u = Some u'"
  then show "wf_loop (loop u') \<and> covered u'"
    using wf_step [of u lim u'] covered_step [of u lim u'] by simp
next
  fix u assume "wf_loop (loop u) \<and> covered u" and "step lim u = None"
  then show "covered (u\<lparr>loop := idle_until lim (loop u)\<rparr>)"
    by (cases lim) (simp_all add: covered_def idle_until_def)
qed

lemma settle_quiet: "pending (loop (settle s)) = []"
  unfolding settle_def
  by (rule run_rule [where P = "\<lambda>u. True"])
    (simp_all add: step_def idle_until_def next_timer_None_all split: option.splits)

lemma covered_quiet:
  assumes "covered s" and "pending (loop s) = []"
  shows "\<not> motion s \<and> \<not> presence s"
  using assms by (simp add: covered_def)

lemma exec_append: "exec (evs @ evs') s = exec evs' (exec evs s)"
  by (simp add: exec_def)

lemma covered_handle:
  assumes "wf_loop (loop s)" and "covered s" and "\<not> stateful s \<or> e \<noteq> Set True"
  shows "covered (handle e s)"
proof (cases e)
  case (Set v)
  with assms(3) show ?thesis
    by (cases v) (simp_all add: trigger_setValue_def covered_on covered_off)
next
  case (Wait ms)
  with assms(1,2) show ?thesis by (simp add: covered_run)
qed

lemma covered_exec:
  assumes "wf_loop (loop s)" and "covered s" and "\<not> stateful s \<or> Set True \<notin> set evs"
  shows "covered (exec evs s)"
  using assms unfolding exec_def
proof (induction evs arbitrary: s)
  case Nil
  then show ?case by simp
next
  case (Cons e evs)
  have "wf_loop (loop (handle e s))" using Cons.prems(1) by (rule wf_handle)
  moreover have "covered (handle e s)"
    using Cons.prems by (intro covered_handle) auto
  moreover have "\<not> stateful (handle e s) \<or> Set True \<notin> set evs"
    using Cons.prems(3) by (auto simp: handle_config)
  ultimately show ?case using Cons.IH by simp
qed

lemma covered_Presence: "covered (Presence cfg)"
  by (simp add: covered_def Presence_def)

lemma settle_covered:
  assumes "wf_loop (loop s)" and "covered s"
  shows "\<not> motion (settle s) \<and> \<not> presence (settle s)"
proof -
  have "covered (settle s)" unfolding settle_def using assms by (rule covered_run)
  then show ?thesis using settle_quiet [of s] by (rule covered_quiet)
qed

lemma settle_nonstateful:
  assumes "\<not> stateful (Presence cfg)"
  shows "\<not> motion (settle (exec evs (Presence cfg))) \<and> \<not> presence (settle (exec evs (Presence cfg)))"
proof (rule settle_covered)
  show "wf_loop (loop (exec evs (Presence cfg)))" by (simp add: wf_exec wf_Presence)
  show "covered (exec evs (Presence cfg))"
    using assms by (intro covered_exec) (simp_all add: wf_Presence covered_Presence)
qed

lemma settle_last_off:
  "\<not> motion (settle (exec (evs @ Set False # map Wait ws) (Presence cfg))) \<and>
   \<not> presence (settle (exec (evs @ Set False # map Wait ws) (Presence cfg)))"
proof (rule settle_covered)
  let ?s = "exec evs (Presence cfg)"
  have wf: "wf_loop (loop ?s)" by (simp add: wf_exec wf_Presence)
  show "wf_loop (loop (exec (evs @ Set False # map Wait ws) (Presence cfg)))"
    by (simp add: wf_exec wf_Presence)
  have "covered (exec (map Wait ws) (handle (Set False) ?s))"
  proof (rule covered_exec)
    show "wf_loop (loop (handle (Set False) ?s))" using wf by (rule wf_handle)
    show "covered (handle (Set False) ?s)" by (simp add: trigger_setValue_def covered_off)
    show "\<not> stateful (handle (Set False) ?s) \<or> Set True \<notin> set (map Wait ws)" by auto
  qed
  then show "covered (exec (evs @ Set False # map Wait ws) (Presence cfg))"
    by (simp add: exec_def)
qed

text \<open>A decay timer that is pending and due by \<open>T\<close> has turned the signal off by \<open>T\<close>.\<close>

lemma fire_keeps_off:
  "\<not> motion s \<Longrightarrow> \<not> motion (fire f s)" "\<not> presence s \<Longrightarrow> \<not> presence (fire f s)"
  by (cases f; simp add: motion_updateValue_def presence_updateValue_def
      trigger_setValue_def onTrigger_False_eq)+

lemma fire_pending_mono: "set (pending (loop s)) \<subseteq> set (pending (loop (fire f s)))"
  by (cases f)
    (auto simp: motion_updateValue_def presence_updateValue_def trigger_setValue_def
      onTrigger_False_eq)

lemma signal_off_by:
  assumes wf: "wf_loop (loop s)" and mem: "t \<in> set (pending (loop s))"
    and sel: "sel = motion \<and> cb t = MotionDecay \<or> sel = presence \<and> cb t = PresenceDecay"
    and due: "due t \<le> T"
  shows "\<not> sel (run (Some T) s)"
proof (rule run_rule [where P = "\<lambda>u. wf_loop (loop u) \<and> (t \<in> set (pending (loop u)) \<or> \<not> sel u)"])
  show "wf_loop (loop s) \<and> (t \<in> set (pending (loop s)) \<or> \<not> sel s)"
    using wf mem by simp
next
  fix u u'
  assume P: "wf_loop (loop u) \<and> (t \<in> set (pending (loop u)) \<or> \<not> sel u)"
    and st: "step (Some T) u = Some u'"
  from st obtain x where nt: "next_timer (Some T) (loop u) = Some x"
    and u': "u' = fire (cb x) (u\<lparr>loop := take_timer x (loop u)\<rparr>)"
    by (auto simp: step_def split: option.splits)
  have x: "x \<in> set (pending (loop u))" using nt by (rule next_timer_mem)
  have rest: "set (pending (take_timer x (loop u))) = set (pending (loop u)) - {x}"
    using P x by (intro pending_take_timer) simp_all
  have "t \<in> set (pending (loop u')) \<or> \<not> sel u'"
  proof (cases "x = t")
    case True
    then show ?thesis
      unfolding u' using sel by (auto simp: motion_updateValue_def presence_updateValue_def)
  next
    case False
    show ?thesis
    proof (cases "sel u")
      case True
      with P have "t \<in> set (pending (loop u))" by simp
      with False rest have "t \<in> set (pending (loop (u\<lparr>loop := take_timer x (loop u)\<rparr>)))"
        by simp
      then show ?thesis unfolding u' using fire_pending_mono by blast
    next
      case False
      then have "\<not> sel (u\<lparr>loop := take_timer x (loop u)\<rparr>)" using sel by auto
      then show ?thesis unfolding u' using sel by (auto simp: fire_keeps_off)
    qed
  qed
  then show "wf_loop (loop u') \<and> (t \<in> set (pending (loop u')) \<or> \<not> sel u')"
    using P st wf_step by blast
next
  fix u
  assume P: "wf_loop (loop u) \<and> (t \<in> set (pending (loop u)) \<or> \<not> sel u)"
    and st: "step (Some T) u = None"
  from st have "next_timer (Some T) (loop u) = None"
    by (simp add: step_def split: option.splits)
  then have "t \<notin> set (pending (loop u))"
    using next_timer_None_limit [of T "loop u" t] due by auto
  with P sel show "\<not> sel (u\<lparr>loop := idle_until (Some T) (loop u)\<rparr>)" by auto
qed

lemma off_decays_by_deadline:
  assumes wf: "wf_loop (loop s)"
  shows "\<not> motion (run (Some (now (loop s) + motionDelay s * 1000)) (onTrigger False s))"
    and "\<not> presence (run (Some (now (loop s) + occupancyDelay s * 1000)) (onTrigger False s))"
proof -
  have wf': "wf_loop (loop (onTrigger False s))" using wf by (rule wf_onTrigger)
  show "\<not> motion (run (Some (now (loop s) + motionDelay s * 1000)) (onTrigger False s))"
    by (rule signal_off_by [OF wf', where t = "Timer (next_id (loop s))
        (now (loop s) + motionDelay s * 1000) MotionDecay"])
      (simp_all add: onTrigger_False_eq)
  show "\<not> presence (run (Some (now (loop s) + occupancyDelay s * 1000)) (onTrigger False s))"
    by (rule signal_off_by [OF wf', where t = "Timer (Suc (next_id (loop s)))
        (now (loop s) + occupancyDelay s * 1000) PresenceDecay"])
      (simp_all add: onTrigger_False_eq)
qed

section \<open>Facts about the accessory with two switches\<close>

lemma d_run_rule:
  assumes "P s"
    and "\<And>s s'. P s \<Longrightarrow> d_step lim s = Some s' \<Longrightarrow> P s'"
    and "\<And>s. P s \<Longrightarrow> d_step lim s = None \<Longrightarrow> Q (s\<lparr>d_loop := idle_until lim (d_loop s)\<rparr>)"
  shows "Q (d_run lim s)"
  using assms
proof (induction lim s rule: d_run.induct)
  case (1 lim s)
  show ?case
  proof (cases "d_step lim s")
    case None
    have "Q (s\<lparr>d_loop := idle_until lim (d_loop s)\<rparr>)"
      using "1.prems"(1) None by (rule "1.prems"(3))
    then show ?thesis using None by (simp add: d_run.simps)
  next
    case (Some s')
    have "P s'" using "1.prems"(1) Some by (rule "1.prems"(2))
    then have "Q (d_run lim s')" using Some "1.IH" "1.prems"(2,3) by blast
    then show ?thesis using Some by (simp add: d_run.simps)
  qed
qed

text \<open>What is left pending once both handlers have cleared the timers they hold.\<close>

definition d_kept :: "dual \<Rightarrow> d_callback timer list" where
  "d_kept s =
     filter (\<lambda>t. Some (tid t) \<noteq> d_motionTimer s \<and> Some (tid t) \<noteq> d_occupancyTimer s)
       (pending (d_loop s))"

lemma d_clearTimers_eq:
  "d_clearTimers s = s\<lparr>d_loop := (d_loop s)\<lparr>pending := d_kept s\<rparr>\<rparr>"
proof -
  have "clearIfSet h l = l\<lparr>pending := filter (\<lambda>t. Some (tid t) \<noteq> h) (pending l)\<rparr>"
    for h and l :: "d_callback loop"
    by (cases h) (simp_all add: clearIfSet_def clearTimeout_def)
  then show ?thesis
    by (simp add: d_clearTimers_def d_kept_def Let_def conj_commute)
qed

lemma onMotion_True_eq:
  "onMotion True s =
     s\<lparr>d_motion := True, d_occupancy := True, d_occupancyTrigger := True,
       d_updates := d_updates s @ [(D_Motion, True), (D_Occupancy, True), (D_OccupancyTrigger, True)],
       d_loop := (if d_stateful s then (d_loop s)\<lparr>pending := d_kept s\<rparr>
          else (d_loop s)\<lparr>next_id := Suc (next_id (d_loop s)),
            pending := d_kept s @
              [Timer (next_id (d_loop s)) (now (d_loop s) + 1000) D_MotionTriggerReset]\<rparr>)\<rparr>"
  by (simp add: onMotion_def d_clearTimers_eq Let_def setTimeout_def)

lemma onMotion_False_eq:
  "onMotion False s =
     s\<lparr>d_motionTimer := Some (next_id (d_loop s)),
       d_loop := (d_loop s)\<lparr>next_id := Suc (next_id (d_loop s)),
         pending := d_kept s @
           [Timer (next_id (d_loop s)) (now (d_loop s) + d_motionDelay s * 1000) D_MotionDecay]\<rparr>\<rparr>"
  by (simp add: onMotion_def d_clearTimers_eq Let_def setTimeout_def)

lemma onOccupancy_True_eq:
  "onOccupancy True s =
     s\<lparr>d_occupancy := True, d_updates := d_updates s @ [(D_Occupancy, True)],
       d_loop := (d_loop s)\<lparr>pending := d_kept s\<rparr>\<rparr>"
  by (simp add: onOccupancy_def d_clearTimers_eq Let_def)

lemma onOccupancy_False_eq:
  "onOccupancy False s =
     s\<lparr>d_motion := False, d_motionTrigger := False,
       d_updates := d_updates s @ [(D_Motion, False), (D_MotionTrigger, False)],
       d_occupancyTimer := Some (next_id (d_loop s)),
       d_loop := (d_loop s)\<lparr>next_id := Suc (next_id (d_loop s)),
         pending := d_kept s @
           [Timer (next_id (d_loop s)) (now (d_loop s) + d_occupancyDelay s * 1000)
              D_OccupancyDecay]\<rparr>\<rparr>"
  by (simp add: onOccupancy_def d_clearTimers_eq Let_def setTimeout_def)


text \<open>A pending decay timer is the one held in the field of its signal.\<close>

definition d_inv :: "dual \<Rightarrow> bool" where
  "d_inv s \<longleftrightarrow>
     wf_loop (d_loop s) \<and>
     (\<forall>t \<in> set (pending (d_loop s)).
        (cb t = D_MotionDecay \<longrightarrow> d_motionTimer s = Some (tid t)) \<and>
        (cb t = D_OccupancyDecay \<longrightarrow> d_occupancyTimer s = Some (tid t)))"

lemma d_kept_resets:
  assumes "d_inv s" and "t \<in> set (d_kept s)"
  shows "cb t = D_MotionTriggerReset"
  using assms by (cases "cb t") (auto simp: d_inv_def d_kept_def)

lemma d_kept_wf:
  assumes "wf_loop (d_loop s)"
  shows "distinct (map tid (d_kept s))" and "\<forall>t \<in> set (d_kept s). tid t < next_id (d_loop s)"
  using assms by (auto simp: wf_loop_def d_kept_def distinct_map_filter)

lemma d_inv_onMotion:
  assumes "d_inv s"
  shows "d_inv (onMotion v s)"
proof -
  have wf: "wf_loop (d_loop s)" using assms by (simp add: d_inv_def)
  note k = d_kept_wf [OF wf] d_kept_resets [OF assms]
  show ?thesis
  proof (cases v)
    case True
    with k show ?thesis
      by (auto simp: d_inv_def wf_loop_def onMotion_True_eq less_Suc_eq)
  next
    case False
    with k show ?thesis
      by (auto simp: d_inv_def wf_loop_def onMotion_False_eq less_Suc_eq)
  qed
qed

lemma d_inv_onOccupancy:
  assumes "d_inv s"
  shows "d_inv (onOccupancy v s)"
proof -
  have wf: "wf_loop (d_loop s)" using assms by (simp add: d_inv_def)
  note k = d_kept_wf [OF wf] d_kept_resets [OF assms]
  show ?thesis
  proof (cases v)
    case True
    with k show ?thesis
      by (auto simp: d_inv_def wf_loop_def onOccupancy_True_eq less_Suc_eq)
  next
    case False
    with k show ?thesis
      by (auto simp: d_inv_def wf_loop_def onOccupancy_False_eq less_Suc_eq)
  qed
qed


lemma d_inv_field [simp]:
  "d_inv (s\<lparr>d_motionTrigger := v\<rparr>) = d_inv s"
  "d_inv (s\<lparr>d_occupancyTrigger := v\<rparr>) = d_inv s"
  "d_inv (s\<lparr>d_motion := v\<rparr>) = d_inv s"
  "d_inv (s\<lparr>d_occupancy := v\<rparr>) = d_inv s"
  "d_inv (s\<lparr>d_updates := us\<rparr>) = d_inv s"
  by (simp_all add: d_inv_def)

lemma d_inv_take: "d_inv s \<Longrightarrow> d_inv (s\<lparr>d_loop := take_timer t (d_loop s)\<rparr>)"
  by (auto simp: d_inv_def wf_loop_def take_timer_def distinct_map_filter)

lemma d_inv_idle: "d_inv s \<Longrightarrow> d_inv (s\<lparr>d_loop := idle_until lim (d_loop s)\<rparr>)"
  by (cases lim) (simp_all add: d_inv_def wf_loop_def idle_until_def)

lemma d_inv_fire: "d_inv s \<Longrightarrow> d_inv (d_fire f s)"
  by (cases f) (simp_all add: motionTrigger_setValue_def d_inv_onMotion)

lemma d_inv_step: "d_inv s \<Longrightarrow> d_step lim s = Some s' \<Longrightarrow> d_inv s'"
  by (auto simp: d_step_def d_inv_fire d_inv_take split: option.splits)

lemma d_inv_run: "d_inv s \<Longrightarrow> d_inv (d_run lim s)"
  by (rule d_run_rule [where P = d_inv]) (simp_all add: d_inv_step d_inv_idle)

lemma d_inv_handle: "d_inv s \<Longrightarrow> d_inv (d_handle e s)"
  by (cases e)
    (simp_all add: d_inv_run motionTrigger_setValue_def occupancyTrigger_setValue_def
      d_inv_onMotion d_inv_onOccupancy)

lemma d_inv_exec: "d_inv s \<Longrightarrow> d_inv (d_exec evs s)"
  unfolding d_exec_def by (induction evs arbitrary: s) (simp_all add: d_inv_handle)

lemma d_inv_Presence: "d_inv (d_Presence cfg)"
  by (simp add: d_inv_def d_Presence_def wf_loop_def)

lemma d_inv_reached: "d_inv (d_exec evs (d_Presence cfg))"
  by (simp add: d_inv_exec d_inv_Presence)

lemma d_kept_live:
  assumes "d_inv s"
  shows "filter (\<lambda>t. cb t = D_MotionDecay) (d_kept s) = []"
    and "filter (\<lambda>t. cb t = D_OccupancyDecay) (d_kept s) = []"
  using d_kept_resets [OF assms] by (auto simp: filter_empty_conv)







text \<open>No timer turns the motion signal on.\<close>

lemma d_fire_motion_off: "\<not> d_motion s \<Longrightarrow> \<not> d_motion (d_fire f s)"
  by (cases f) (simp_all add: motionTrigger_setValue_def onMotion_False_eq)

lemma d_run_motion_off:
  assumes "\<not> d_motion s"
  shows "\<not> d_motion (d_run lim s)"
  by (rule d_run_rule [where P = "\<lambda>u. \<not> d_motion u"])
    (use assms in \<open>auto simp: d_step_def d_fire_motion_off split: option.splits\<close>)

lemma d_run_idle:
  assumes "pending (d_loop s) = []"
  shows "d_run lim s = s\<lparr>d_loop := idle_until lim (d_loop s)\<rparr>"
  using assms by (simp add: d_run.simps d_step_def next_timer_def)

section \<open>Facts about the accessory with a list of sensors\<close>

lemma arm_triggers:
  assumes "i < length (triggers s)"
  shows "triggers (arm i s) =
     (triggers s)[i := (triggers s ! i)\<lparr>occupancy := True, timer := Some (next_id (f_loop s))\<rparr>]"
  using assms by (simp add: arm_def setOccupancy_def setTimeout_def Let_def)

lemma arm_timer:
  assumes "i < length (triggers s)" and "k < length (triggers s)"
  shows "timer (triggers (arm i s) ! k) =
     (if k = i then Some (next_id (f_loop s)) else timer (triggers s ! k))"
  using assms by (simp add: arm_triggers nth_list_update)

lemma arm_occupancy:
  assumes "i < length (triggers s)" and "k < length (triggers s)"
  shows "occupancy (triggers (arm i s) ! k) = (k = i \<or> occupancy (triggers s ! k))"
  using assms by (simp add: arm_triggers nth_list_update)

lemma arm_delay:
  assumes "i < length (triggers s)" and "k < length (triggers s)"
  shows "delay (triggers (arm i s) ! k) = delay (triggers s ! k)"
  using assms by (simp add: arm_triggers nth_list_update)

lemma arm_pending:
  "pending (f_loop (arm i s)) =
     filter (\<lambda>t. Some (tid t) \<noteq> timer ((triggers s)[i := (triggers s ! i)\<lparr>occupancy := True\<rparr>] ! i))
       (pending (f_loop s)) @
     [Timer (next_id (f_loop s))
        (now (f_loop s) + delay ((triggers s)[i := (triggers s ! i)\<lparr>occupancy := True\<rparr>] ! i) * 1000)
        (SetOccupancyFalse i)]"
  by (simp add: arm_def setOccupancy_def setTimeout_def Let_def pending_clearIfSet)

lemma arm_pending_in:
  assumes "i < length (triggers s)"
  shows "pending (f_loop (arm i s)) =
     filter (\<lambda>t. Some (tid t) \<noteq> timer (triggers s ! i)) (pending (f_loop s)) @
     [Timer (next_id (f_loop s)) (now (f_loop s) + delay (triggers s ! i) * 1000)
        (SetOccupancyFalse i)]"
  using assms by (simp add: arm_pending)

lemma arm_fields:
  "next_id (f_loop (arm i s)) = Suc (next_id (f_loop s))"
  "now (f_loop (arm i s)) = now (f_loop s)"
  "f_updates (arm i s) = f_updates s @ [(i, True)]"
  "switch (arm i s) = switch s"
  "length (triggers (arm i s)) = length (triggers s)"
  by (simp_all add: arm_def setOccupancy_def setTimeout_def Let_def)

text \<open>
  The handles a trigger holds were handed out before and differ from trigger to trigger;
  a pending decay timer is the one its trigger holds.
\<close>

definition f_inv :: "fanout \<Rightarrow> bool" where
  "f_inv s \<longleftrightarrow>
     wf_loop (f_loop s) \<and>
     (\<forall>i < length (triggers s). \<forall>h. timer (triggers s ! i) = Some h \<longrightarrow> h < next_id (f_loop s)) \<and>
     (\<forall>i < length (triggers s). \<forall>j < length (triggers s).
        i \<noteq> j \<longrightarrow> timer (triggers s ! i) \<noteq> None \<longrightarrow> timer (triggers s ! i) \<noteq> timer (triggers s ! j)) \<and>
     (\<forall>t \<in> set (pending (f_loop s)). \<forall>i. cb t = SetOccupancyFalse i \<longrightarrow>
        i < length (triggers s) \<and> timer (triggers s ! i) = Some (tid t))"

lemma f_inv_arm:
  assumes inv: "f_inv s" and i: "i < length (triggers s)"
  shows "f_inv (arm i s)"
proof -
  let ?n = "length (triggers s)"
  from inv have wf0: "wf_loop (f_loop s)"
    and old: "\<And>k h. k < ?n \<Longrightarrow> timer (triggers s ! k) = Some h \<Longrightarrow> h < next_id (f_loop s)"
    and diff: "\<And>k j. k < ?n \<Longrightarrow> j < ?n \<Longrightarrow> k \<noteq> j \<Longrightarrow> timer (triggers s ! k) \<noteq> None \<Longrightarrow>
        timer (triggers s ! k) \<noteq> timer (triggers s ! j)"
    and held: "\<And>t k. t \<in> set (pending (f_loop s)) \<Longrightarrow> cb t = SetOccupancyFalse k \<Longrightarrow>
        k < ?n \<and> timer (triggers s ! k) = Some (tid t)"
    unfolding f_inv_def by blast+
  have wf: "wf_loop (f_loop (arm i s))"
    using wf0
    by (simp add: arm_def setOccupancy_def Let_def split_def wf_loop_clearIfSet
        wf_loop_setTimeout)
  have a: "h < Suc (next_id (f_loop s))"
    if "k < ?n" and "timer (triggers (arm i s) ! k) = Some h" for k h
  proof (cases "k = i")
    case True
    with that i show ?thesis by (simp add: arm_timer)
  next
    case False
    with that i have "timer (triggers s ! k) = Some h" by (simp add: arm_timer)
    with old [OF that(1)] show ?thesis by simp
  qed
  have b: "timer (triggers (arm i s) ! k) \<noteq> timer (triggers (arm i s) ! j)"
    if "k < ?n" and "j < ?n" and "k \<noteq> j" and "timer (triggers (arm i s) ! k) \<noteq> None" for k j
  proof -
    consider "k = i" | "j = i" "k \<noteq> i" | "k \<noteq> i" "j \<noteq> i" by blast
    then show ?thesis
    proof cases
      case 1
      with that i have "timer (triggers (arm i s) ! j) = timer (triggers s ! j)"
        by (simp add: arm_timer)
      moreover have "timer (triggers s ! j) \<noteq> Some (next_id (f_loop s))"
        using old [OF that(2)] by fastforce
      ultimately show ?thesis using 1 i by (simp add: arm_timer)
    next
      case 2
      with that i have "timer (triggers (arm i s) ! k) = timer (triggers s ! k)"
        by (simp add: arm_timer)
      moreover have "timer (triggers s ! k) \<noteq> Some (next_id (f_loop s))"
        using old [OF that(1)] by fastforce
      ultimately show ?thesis using 2 i by (simp add: arm_timer)
    next
      case 3
      with that i diff [of k j] show ?thesis by (simp add: arm_timer)
    qed
  qed
  have c: "k < ?n \<and> timer (triggers (arm i s) ! k) = Some (tid t)"
    if "t \<in> set (pending (f_loop (arm i s)))" and "cb t = SetOccupancyFalse k" for t k
  proof -
    from that(1) i consider
      "t = Timer (next_id (f_loop s)) (now (f_loop s) + delay (triggers s ! i) * 1000)
         (SetOccupancyFalse i)"
      | "t \<in> set (pending (f_loop s))" "Some (tid t) \<noteq> timer (triggers s ! i)"
      by (auto simp: arm_pending_in)
    then show ?thesis
    proof cases
      case 1
      with that(2) i show ?thesis by (simp add: arm_timer)
    next
      case 2
      from held [OF 2(1) that(2)] have k: "k < ?n" and h: "timer (triggers s ! k) = Some (tid t)"
        by simp_all
      with 2(2) have "k \<noteq> i" by auto
      with k h i show ?thesis by (simp add: arm_timer)
    qed
  qed
  from wf a b c show ?thesis
    unfolding f_inv_def arm_fields by blast
qed


text \<open>
  A trigger is armed: its occupancy is set and the timer \<open>h\<close> it holds is pending, due
  its delay after \<open>T\<close>.
\<close>

definition armed :: "nat \<Rightarrow> nat \<Rightarrow> nat \<Rightarrow> fanout \<Rightarrow> bool" where
  "armed h T i s \<longleftrightarrow>
     occupancy (triggers s ! i) \<and> timer (triggers s ! i) = Some h \<and>
     Timer h (T + delay (triggers s ! i) * 1000) (SetOccupancyFalse i)
       \<in> set (pending (f_loop s))"

lemma armed_arm_self:
  assumes "i < length (triggers s)"
  shows "armed (next_id (f_loop s)) (now (f_loop s)) i (arm i s)"
  using assms by (simp add: armed_def arm_timer arm_occupancy arm_delay arm_pending_in)

lemma armed_arm_other:
  assumes inv: "f_inv s" and k: "k < length (triggers s)" and i: "i < length (triggers s)"
    and ne: "i \<noteq> k" and ar: "armed h T i s"
  shows "armed h T i (arm k s)"
proof -
  from ar have h: "timer (triggers s ! i) = Some h"
    and mem: "Timer h (T + delay (triggers s ! i) * 1000) (SetOccupancyFalse i)
      \<in> set (pending (f_loop s))"
    and occ: "occupancy (triggers s ! i)"
    unfolding armed_def by blast+
  from inv i k ne h have "timer (triggers s ! i) \<noteq> timer (triggers s ! k)"
    unfolding f_inv_def by (metis option.distinct(1))
  with h have "Some h \<noteq> timer (triggers s ! k)" by simp
  with mem k have "Timer h (T + delay (triggers s ! i) * 1000) (SetOccupancyFalse i)
      \<in> set (pending (f_loop (arm k s)))"
    by (simp add: arm_pending_in)
  with h occ k i ne show ?thesis
    by (simp add: armed_def arm_timer arm_occupancy arm_delay)
qed

lemma fold_arm:
  assumes inv: "f_inv s" and k: "k \<le> length (triggers s)"
  shows "f_inv (fold arm [0..<k] s) \<and>
     length (triggers (fold arm [0..<k] s)) = length (triggers s) \<and>
     now (f_loop (fold arm [0..<k] s)) = now (f_loop s) \<and>
     next_id (f_loop (fold arm [0..<k] s)) = next_id (f_loop s) + k \<and>
     switch (fold arm [0..<k] s) = switch s \<and>
     f_updates (fold arm [0..<k] s) = f_updates s @ map (\<lambda>i. (i, True)) [0..<k] \<and>
     (\<forall>i < length (triggers s).
        delay (triggers (fold arm [0..<k] s) ! i) = delay (triggers s ! i)) \<and>
     (\<forall>i < k. armed (next_id (f_loop s) + i) (now (f_loop s)) i (fold arm [0..<k] s))"
  using k
proof (induction k)
  case 0
  with inv show ?case by simp
next
  case (Suc k)
  let ?u = "fold arm [0..<k] s"
  from Suc have kn: "k < length (triggers s)" by simp
  with Suc have IH: "f_inv ?u" "length (triggers ?u) = length (triggers s)"
    "now (f_loop ?u) = now (f_loop s)" "next_id (f_loop ?u) = next_id (f_loop s) + k"
    "switch ?u = switch s" "f_updates ?u = f_updates s @ map (\<lambda>i. (i, True)) [0..<k]"
    "\<forall>i < length (triggers s). delay (triggers ?u ! i) = delay (triggers s ! i)"
    "\<forall>i < k. armed (next_id (f_loop s) + i) (now (f_loop s)) i ?u"
    by simp_all
  have ku: "k < length (triggers ?u)" using kn IH(2) by simp
  have eq: "fold arm [0..<Suc k] s = arm k ?u" by simp
  have 1: "f_inv (arm k ?u)" using IH(1) ku by (rule f_inv_arm)
  have 7: "delay (triggers (arm k ?u) ! i) = delay (triggers s ! i)"
    if "i < length (triggers s)" for i
    using that IH(2,7) ku by (simp add: arm_delay)
  have 8: "armed (next_id (f_loop s) + i) (now (f_loop s)) i (arm k ?u)" if "i < Suc k" for i
  proof (cases "i = k")
    case True
    have "armed (next_id (f_loop ?u)) (now (f_loop ?u)) k (arm k ?u)"
      using ku by (rule armed_arm_self)
    with True IH(3,4) show ?thesis by simp
  next
    case False
    with that have ik: "i < k" by simp
    then have "i < length (triggers ?u)" using ku by simp
    moreover have "armed (next_id (f_loop s) + i) (now (f_loop s)) i ?u" using IH(8) ik by simp
    ultimately show ?thesis using IH(1) ku False by (intro armed_arm_other) simp_all
  qed
  show ?case
    unfolding eq using 1 7 8 IH(2,3,4,5,6) by (simp add: arm_fields)
qed


lemma f_run_rule:
  assumes "P s"
    and "\<And>s s'. P s \<Longrightarrow> f_step lim s = Some s' \<Longrightarrow> P s'"
    and "\<And>s. P s \<Longrightarrow> f_step lim s = None \<Longrightarrow> Q (s\<lparr>f_loop := idle_until lim (f_loop s)\<rparr>)"
  shows "Q (f_run lim s)"
  using assms
proof (induction lim s rule: f_run.induct)
  case (1 lim s)
  show ?case
  proof (cases "f_step lim s")
    case None
    have "Q (s\<lparr>f_loop := idle_until lim (f_loop s)\<rparr>)"
      using "1.prems"(1) None by (rule "1.prems"(3))
    then show ?thesis using None by (simp add: f_run.simps)
  next
    case (Some s')
    have "P s'" using "1.prems"(1) Some by (rule "1.prems"(2))
    then have "Q (f_run lim s')" using Some "1.IH" "1.prems"(2,3) by blast
    then show ?thesis using Some by (simp add: f_run.simps)
  qed
qed

lemma onSet_fields:
  "triggers (onSet v s) = triggers (fold arm [0..<length (triggers s)] s)"
  "pending (f_loop (onSet v s)) =
     pending (f_loop (fold arm [0..<length (triggers s)] s)) @
     [Timer (next_id (f_loop (fold arm [0..<length (triggers s)] s)))
        (now (f_loop (fold arm [0..<length (triggers s)] s)) + 1000) SwitchOff]"
  "next_id (f_loop (onSet v s)) = Suc (next_id (f_loop (fold arm [0..<length (triggers s)] s)))"
  "now (f_loop (onSet v s)) = now (f_loop (fold arm [0..<length (triggers s)] s))"
  "f_updates (onSet v s) = f_updates (fold arm [0..<length (triggers s)] s)"
  "switch (onSet v s) = switch (fold arm [0..<length (triggers s)] s)"
  by (simp_all add: onSet_def Let_def setTimeout_def)

lemma f_inv_more_timers:
  assumes inv: "f_inv s" and tr: "triggers s' = triggers s"
    and p: "pending (f_loop s') = pending (f_loop s) @ [Timer (next_id (f_loop s)) d SwitchOff]"
    and n: "next_id (f_loop s') = Suc (next_id (f_loop s))"
  shows "f_inv s'"
proof -
  from inv have "wf_loop (f_loop s')"
    by (auto simp: f_inv_def wf_loop_def p n less_Suc_eq)
  with inv show ?thesis
    unfolding f_inv_def tr p n by (auto simp: less_Suc_eq)
qed

lemma f_inv_onSet:
  assumes "f_inv s"
  shows "f_inv (onSet v s)"
proof -
  have "f_inv (fold arm [0..<length (triggers s)] s)"
    using fold_arm [OF assms, of "length (triggers s)"] by simp
  then show ?thesis
    by (rule f_inv_more_timers) (simp_all add: onSet_fields)
qed

lemma setOccupancy_fields:
  "timer (triggers (setOccupancy i v s) ! k) = timer (triggers s ! k)"
  "delay (triggers (setOccupancy i v s) ! k) = delay (triggers s ! k)"
  "length (triggers (setOccupancy i v s)) = length (triggers s)"
  "f_loop (setOccupancy i v s) = f_loop s"
  by (cases "i < length (triggers s)"; cases "k = i";
      simp add: setOccupancy_def nth_list_update list_update_beyond)+

lemma setOccupancy_occupancy:
  assumes "i < length (triggers s)"
  shows "occupancy (triggers (setOccupancy i v s) ! k) = (if k = i then v else occupancy (triggers s ! k))"
  using assms by (simp add: setOccupancy_def nth_list_update)

lemma f_inv_subset:
  assumes inv: "f_inv s"
    and t: "\<And>k. timer (triggers s' ! k) = timer (triggers s ! k)"
    and l: "length (triggers s') = length (triggers s)"
    and p: "pending (f_loop s') = filter P (pending (f_loop s))"
    and n: "next_id (f_loop s') = next_id (f_loop s)"
  shows "f_inv s'"
proof -
  from inv have "wf_loop (f_loop s')"
    by (auto simp: f_inv_def wf_loop_def p n distinct_map_filter)
  with inv show ?thesis
    unfolding f_inv_def t l p n by auto
qed

lemma f_inv_step:
  assumes inv: "f_inv s" and st: "f_step lim s = Some s'"
  shows "f_inv s'"
proof -
  from st obtain t where s': "s' = f_fire (cb t) (s\<lparr>f_loop := take_timer t (f_loop s)\<rparr>)"
    by (auto simp: f_step_def split: option.splits)
  show ?thesis
  proof (cases "cb t")
    case (SetOccupancyFalse i)
    from inv show ?thesis
      unfolding s' SetOccupancyFalse
      by (rule f_inv_subset [where P = "\<lambda>u. tid u \<noteq> tid t"])
        (simp_all add: setOccupancy_fields take_timer_def)
  next
    case SwitchOff
    from inv show ?thesis
      unfolding s' SwitchOff
      by (rule f_inv_subset [where P = "\<lambda>u. tid u \<noteq> tid t"]) (simp_all add: take_timer_def)
  qed
qed

lemma f_inv_idle: "f_inv s \<Longrightarrow> f_inv (s\<lparr>f_loop := idle_until lim (f_loop s)\<rparr>)"
  by (cases lim) (simp_all add: f_inv_def wf_loop_def idle_until_def)

lemma f_inv_run: "f_inv s \<Longrightarrow> f_inv (f_run lim s)"
  by (rule f_run_rule [where P = f_inv]) (simp_all add: f_inv_step f_inv_idle)

lemma f_inv_switch [simp]: "f_inv (s\<lparr>switch := v\<rparr>) = f_inv s"
  by (simp add: f_inv_def)

lemma f_inv_handle: "f_inv s \<Longrightarrow> f_inv (f_handle e s)"
  by (cases e) (simp_all add: f_inv_run switch_set_def f_inv_onSet)

lemma f_inv_exec: "f_inv s \<Longrightarrow> f_inv (f_exec evs s)"
  unfolding f_exec_def by (induction evs arbitrary: s) (simp_all add: f_inv_handle)

lemma f_inv_Presence: "f_inv (f_Presence cfg)"
  by (simp add: f_inv_def f_Presence_def wf_loop_def Trigger_def split_def)


text \<open>Every trigger whose occupancy is set has a pending timer that will clear it.\<close>

definition f_covered :: "fanout \<Rightarrow> bool" where
  "f_covered s \<longleftrightarrow>
     (\<forall>i < length (triggers s). occupancy (triggers s ! i) \<longrightarrow>
        (\<exists>t \<in> set (pending (f_loop s)). cb t = SetOccupancyFalse i))"

lemma armed_onSet:
  assumes inv: "f_inv s" and i: "i < length (triggers s)"
  shows "armed (next_id (f_loop s) + i) (now (f_loop s)) i (onSet v s)"
proof -
  let ?u = "fold arm [0..<length (triggers s)] s"
  have "armed (next_id (f_loop s) + i) (now (f_loop s)) i ?u"
    using fold_arm [OF inv, of "length (triggers s)"] i by simp
  then show ?thesis
    by (auto simp: armed_def onSet_fields)
qed

lemma length_onSet: "f_inv s \<Longrightarrow> length (triggers (onSet v s)) = length (triggers s)"
  using fold_arm [of s "length (triggers s)"] by (simp add: onSet_fields)

lemma f_covered_onSet:
  assumes "f_inv s"
  shows "f_covered (onSet v s)"
  unfolding f_covered_def
proof (intro allI impI)
  fix i assume "i < length (triggers (onSet v s))"
  with assms have "i < length (triggers s)" by (simp add: length_onSet)
  with assms have "armed (next_id (f_loop s) + i) (now (f_loop s)) i (onSet v s)"
    by (rule armed_onSet)
  then show "\<exists>t \<in> set (pending (f_loop (onSet v s))). cb t = SetOccupancyFalse i"
    unfolding armed_def by force
qed

lemma f_covered_step:
  assumes inv: "f_inv s" and c: "f_covered s" and st: "f_step lim s = Some s'"
  shows "f_covered s'"
proof -
  from st obtain t where nt: "next_timer lim (f_loop s) = Some t"
    and s': "s' = f_fire (cb t) (s\<lparr>f_loop := take_timer t (f_loop s)\<rparr>)"
    by (auto simp: f_step_def split: option.splits)
  have mem: "t \<in> set (pending (f_loop s))" using nt by (rule next_timer_mem)
  have wf: "wf_loop (f_loop s)" using inv by (simp add: f_inv_def)
  have rest: "set (pending (take_timer t (f_loop s))) = set (pending (f_loop s)) - {t}"
    using wf mem by (rule pending_take_timer)
  show ?thesis
  proof (cases "cb t")
    case (SetOccupancyFalse i)
    from inv mem SetOccupancyFalse have i: "i < length (triggers s)"
      unfolding f_inv_def by blast
    have "\<exists>u \<in> set (pending (f_loop s)) - {t}. cb u = SetOccupancyFalse k"
      if "k < length (triggers s)" and "k \<noteq> i" and "occupancy (triggers s ! k)" for k
      using c that SetOccupancyFalse unfolding f_covered_def by force
    then show ?thesis
      unfolding s' SetOccupancyFalse f_covered_def
      using i by (simp add: setOccupancy_fields setOccupancy_occupancy rest)
  next
    case SwitchOff
    have "\<exists>u \<in> set (pending (f_loop s)) - {t}. cb u = SetOccupancyFalse k"
      if "k < length (triggers s)" and "occupancy (triggers s ! k)" for k
      using c that SwitchOff unfolding f_covered_def by force
    then show ?thesis
      unfolding s' SwitchOff f_covered_def by (simp add: rest)
  qed
qed

lemma f_covered_run:
  assumes "f_inv s" and "f_covered s"
  shows "f_covered (f_run lim s)"
proof (rule f_run_rule [where P = "\<lambda>u. f_inv u \<and> f_covered u"])
  show "f_inv s \<and> f_covered s" using assms by simp
next
  fix u u' assume "f_inv u \<and> f_covered u" and "f_step lim u = Some u'"
  then show "f_inv u' \<and> f_covered u'"
    using f_inv_step [of u lim u'] f_covered_step [of u lim u'] by simp
next
  fix u assume "f_inv u \<and> f_covered u" and "f_step lim u = None"
  then show "f_covered (u\<lparr>f_loop := idle_until lim (f_loop u)\<rparr>)"
    by (cases lim) (simp_all add: f_covered_def idle_until_def)
qed

lemma f_covered_switch [simp]: "f_covered (s\<lparr>switch := v\<rparr>) = f_covered s"
  by (simp add: f_covered_def)

lemma f_covered_exec:
  assumes "f_inv s" and "f_covered s"
  shows "f_covered (f_exec evs s)"
  using assms unfolding f_exec_def
proof (induction evs arbitrary: s)
  case Nil
  then show ?case by simp
next
  case (Cons e evs)
  have "f_inv (f_handle e s)" using Cons.prems(1) by (rule f_inv_handle)
  moreover have "f_covered (f_handle e s)"
    using Cons.prems by (cases e) (simp_all add: switch_set_def f_covered_onSet f_covered_run)
  ultimately show ?case using Cons.IH by simp
qed

lemma f_settle_quiet: "pending (f_loop (f_settle s)) = []"
  unfolding f_settle_def
  by (rule f_run_rule [where P = "\<lambda>u. True"])
    (simp_all add: f_step_def idle_until_def next_timer_None_all split: option.splits)

lemma f_triggers_step:
  assumes "f_step lim s = Some s'"
  shows "length (triggers s') = length (triggers s)"
proof -
  from assms obtain t where s': "s' = f_fire (cb t) (s\<lparr>f_loop := take_timer t (f_loop s)\<rparr>)"
    by (auto simp: f_step_def split: option.splits)
  show ?thesis unfolding s' by (cases "cb t") (simp_all add: setOccupancy_fields)
qed

lemma f_length_run: "length (triggers (f_run lim s)) = length (triggers s)"
  by (rule f_run_rule [where P = "\<lambda>u. length (triggers u) = length (triggers s)"])
    (simp_all add: f_triggers_step)

lemma f_length_exec:
  "length (triggers (f_exec evs (f_Presence cfg))) = length cfg"
proof -
  have "f_inv s \<Longrightarrow> length (triggers (fold f_handle evs s)) = length (triggers s)" for s
  proof (induction evs arbitrary: s)
    case Nil
    then show ?case by simp
  next
    case (Cons e evs)
    have "length (triggers (f_handle e s)) = length (triggers s)"
      using Cons.prems by (cases e) (simp_all add: switch_set_def length_onSet f_length_run)
    with Cons.IH [OF f_inv_handle [OF Cons.prems]] show ?case by simp
  qed
  from this [OF f_inv_Presence] show ?thesis
    by (simp add: f_exec_def) (simp add: f_Presence_def)
qed

text \<open>Configurations of the scenarios.\<close>

definition no_config :: config where
  "no_config = \<lparr>cfg_stateful = None, cfg_motionDelay = None, cfg_occupancyDelay = None\<rparr>"

definition scenario_A :: config where
  "scenario_A = \<lparr>cfg_stateful = Some False, cfg_motionDelay = Some 2, cfg_occupancyDelay = Some 5\<rparr>"

definition stateful_config :: config where
  "stateful_config = \<lparr>cfg_stateful = Some True, cfg_motionDelay = Some 2, cfg_occupancyDelay = Some 5\<rparr>"

definition zero_config :: config where
  "zero_config = \<lparr>cfg_stateful = Some True, cfg_motionDelay = Some 0, cfg_occupancyDelay = Some 0\<rparr>"

lemmas config_defs = no_config_def scenario_A_def stateful_config_def zero_config_def

lemma length_filter_conj_le:
  "length (filter (\<lambda>x. P x \<and> Q x \<and> R x) xs) \<le> length (filter R xs)"
  by (induction xs) auto

lemma filter_single:
  assumes "distinct (map g xs)" and "x \<in> set xs" and "P x"
    and "\<And>y. y \<in> set xs \<Longrightarrow> P y \<Longrightarrow> g y = g x"
  shows "filter P xs = [x]"
  using assms
proof (induction xs)
  case Nil
  then show ?case by simp
next
  case (Cons a xs)
  have fresh: "g a \<notin> g ` set xs" and dist: "distinct (map g xs)"
    using Cons.prems(1) by simp_all
  have same: "g y = g x" if "y \<in> set xs" and "P y" for y
    using that Cons.prems(4) [of y] by (simp only: list.set insert_iff simp_thms)
  show ?case
  proof (cases "a = x")
    case True
    have "\<not> P y" if "y \<in> set xs" for y
    proof
      assume "P y"
      with that have "g y = g x" by (rule same)
      moreover have "g y \<in> g ` set xs" using that by (rule imageI)
      ultimately show False using fresh True by metis
    qed
    then have "filter P xs = []" by (simp add: filter_empty_conv)
    with True Cons.prems(3) show ?thesis by simp
  next
    case False
    with Cons.prems(2) have x: "x \<in> set xs" by simp
    have "\<not> P a"
    proof
      assume "P a"
      then have "g a = g x" using Cons.prems(4) [of a] by (simp only: list.set insert_iff simp_thms)
      moreover have "g x \<in> g ` set xs" using x by (rule imageI)
      ultimately show False using fresh by metis
    qed
    moreover have "filter P xs = [x]"
      using dist x Cons.prems(3) same by (rule Cons.IH)
    ultimately show ?thesis by simp
  qed
qed

lemma d_decay_single:
  assumes "d_inv s"
  shows "filter (\<lambda>t. cb t = D_MotionDecay) (d_kept s @ [Timer n d D_MotionDecay])
           = [Timer n d D_MotionDecay]"
    and "filter (\<lambda>t. cb t = D_OccupancyDecay) (d_kept s @ [Timer n d D_OccupancyDecay])
           = [Timer n d D_OccupancyDecay]"
    and "filter (\<lambda>t. cb t = D_MotionDecay) (d_kept s @ [Timer n d D_OccupancyDecay]) = []"
    and "filter (\<lambda>t. cb t = D_OccupancyDecay) (d_kept s @ [Timer n d D_MotionDecay]) = []"
  using d_kept_live [OF assms] by simp_all

lemma onSet_delay:
  assumes "f_inv s" and "i < length (triggers s)"
  shows "delay (triggers (onSet v s) ! i) = delay (triggers s ! i)"
  using fold_arm [OF assms(1), of "length (triggers s)"] assms(2)
  by (simp add: onSet_fields)

lemma onSet_decay_single:
  assumes inv: "f_inv s" and i: "i < length (triggers s)"
  shows "filter (\<lambda>t. cb t = SetOccupancyFalse i) (pending (f_loop (onSet v s))) =
    [Timer (next_id (f_loop s) + i) (now (f_loop s) + delay (triggers s ! i) * 1000)
       (SetOccupancyFalse i)]"
proof (rule filter_single [where g = tid])
  let ?x = "Timer (next_id (f_loop s) + i) (now (f_loop s) + delay (triggers s ! i) * 1000)
       (SetOccupancyFalse i)"
  have inv': "f_inv (onSet v s)" using inv by (rule f_inv_onSet)
  have ar: "armed (next_id (f_loop s) + i) (now (f_loop s)) i (onSet v s)"
    using inv i by (rule armed_onSet)
  show "distinct (map tid (pending (f_loop (onSet v s))))"
    using inv' by (simp add: f_inv_def wf_loop_def)
  show "?x \<in> set (pending (f_loop (onSet v s)))"
    using ar by (simp add: armed_def onSet_delay [OF inv i])
  show "cb ?x = SetOccupancyFalse i" by simp
  fix y assume "y \<in> set (pending (f_loop (onSet v s)))" and "cb y = SetOccupancyFalse i"
  with inv' have "timer (triggers (onSet v s) ! i) = Some (tid y)"
    unfolding f_inv_def by blast
  with ar show "tid y = tid ?x" by (simp add: armed_def)
qed

lemma arm_decay_single:
  assumes inv: "f_inv s" and i: "i < length (triggers s)"
  shows "filter (\<lambda>t. cb t = SetOccupancyFalse i) (pending (f_loop (arm i s))) =
    [Timer (next_id (f_loop s)) (now (f_loop s) + delay (triggers s ! i) * 1000)
       (SetOccupancyFalse i)]"
proof (rule filter_single [where g = tid])
  let ?x = "Timer (next_id (f_loop s)) (now (f_loop s) + delay (triggers s ! i) * 1000)
       (SetOccupancyFalse i)"
  have inv': "f_inv (arm i s)" using inv i by (rule f_inv_arm)
  show "distinct (map tid (pending (f_loop (arm i s))))"
    using inv' by (simp add: f_inv_def wf_loop_def)
  show "?x \<in> set (pending (f_loop (arm i s)))"
    using i by (simp add: arm_pending_in)
  show "cb ?x = SetOccupancyFalse i" by simp
  fix y assume "y \<in> set (pending (f_loop (arm i s)))" and "cb y = SetOccupancyFalse i"
  with inv' have "timer (triggers (arm i s) ! i) = Some (tid y)"
    unfolding f_inv_def by blast
  with i show "tid y = tid ?x" by (simp add: arm_timer)
qed

lemma not_pending_taken: "t \<notin> set (pending (take_timer t l))"
  by (simp add: take_timer_def)


lemma filter_at_most_one:
  assumes "distinct (map g xs)" and "\<And>y. y \<in> set xs \<Longrightarrow> P y \<Longrightarrow> g y = c"
  shows "length (filter P xs) \<le> 1"
proof (cases "filter P xs")
  case Nil
  then show ?thesis by simp
next
  case (Cons x ys)
  then have "x \<in> set (filter P xs)" by simp
  then have x: "x \<in> set xs" "P x" by simp_all
  have "filter P xs = [x]"
  proof (rule filter_single [where g = g])
    show "distinct (map g xs)" by (rule assms(1))
    show "x \<in> set xs" by (rule x(1))
    show "P x" by (rule x(2))
    fix y assume "y \<in> set xs" and "P y"
    then have "g y = c" by (rule assms(2))
    moreover have "g x = c" using x by (rule assms(2))
    ultimately show "g y = g x" by (simp only:)
  qed
  then show ?thesis by simp
qed

lemma d_one_decay:
  "live D_MotionDecay (d_loop (d_exec evs (d_Presence cfg))) \<le> 1 \<and>
   live D_OccupancyDecay (d_loop (d_exec evs (d_Presence cfg))) \<le> 1"
proof -
  let ?s = "d_exec evs (d_Presence cfg)"
  have inv: "d_inv ?s" by (rule d_inv_reached)
  then have dist: "distinct (map tid (pending (d_loop ?s)))"
    by (simp add: d_inv_def wf_loop_def)
  have "length (filter (\<lambda>t. cb t = D_MotionDecay) (pending (d_loop ?s))) \<le> 1"
  proof (rule filter_at_most_one [where g = "\<lambda>t. Some (tid t)" and c = "d_motionTimer ?s"])
    show "distinct (map (\<lambda>t. Some (tid t)) (pending (d_loop ?s)))"
      using dist by (simp add: distinct_map inj_on_def)
    fix y assume "y \<in> set (pending (d_loop ?s))" and "cb y = D_MotionDecay"
    with inv show "Some (tid y) = d_motionTimer ?s" unfolding d_inv_def by force
  qed
  moreover have "length (filter (\<lambda>t. cb t = D_OccupancyDecay) (pending (d_loop ?s))) \<le> 1"
  proof (rule filter_at_most_one [where g = "\<lambda>t. Some (tid t)" and c = "d_occupancyTimer ?s"])
    show "distinct (map (\<lambda>t. Some (tid t)) (pending (d_loop ?s)))"
      using dist by (simp add: distinct_map inj_on_def)
    fix y assume "y \<in> set (pending (d_loop ?s))" and "cb y = D_OccupancyDecay"
    with inv show "Some (tid y) = d_occupancyTimer ?s" unfolding d_inv_def by force
  qed
  ultimately show ?thesis by (simp add: live_def)
qed

lemma f_one_decay:
  "live (SetOccupancyFalse i) (f_loop (f_exec evs (f_Presence tcfg))) \<le> 1"
proof -
  let ?s = "f_exec evs (f_Presence tcfg)"
  have inv: "f_inv ?s" by (simp add: f_inv_exec f_inv_Presence)
  then have dist: "distinct (map tid (pending (f_loop ?s)))"
    by (simp add: f_inv_def wf_loop_def)
  have "length (filter (\<lambda>t. cb t = SetOccupancyFalse i) (pending (f_loop ?s))) \<le> 1"
  proof (rule filter_at_most_one [where g = "\<lambda>t. Some (tid t)" and c = "timer (triggers ?s ! i)"])
    show "distinct (map (\<lambda>t. Some (tid t)) (pending (f_loop ?s)))"
      using dist by (simp add: distinct_map inj_on_def)
    fix y assume "y \<in> set (pending (f_loop ?s))" and "cb y = SetOccupancyFalse i"
    with inv show "Some (tid y) = timer (triggers ?s ! i)" unfolding f_inv_def by force
  qed
  then show ?thesis by (simp add: live_def)
qed

lemma run_idle:
  assumes "pending (loop s) = []"
  shows "run lim s = s\<lparr>loop := idle_until lim (loop s)\<rparr>"
  using assms by (simp add: run.simps step_def next_timer_def)

lemma pending_idle_until [simp]: "pending (idle_until lim l) = pending l"
  by (cases lim) (simp_all add: idle_until_def)

text \<open>
  With a stateful switch and no trigger-OFF no timer is ever set: the signals are on as
  soon as one trigger-ON has arrived.
\<close>

lemma exec_on_only:
  assumes "stateful s" and "pending (loop s) = []" and "Set False \<notin> set evs"
  shows "pending (loop (exec evs s)) = [] \<and>
    motion (exec evs s) = (motion s \<or> Set True \<in> set evs) \<and>
    presence (exec evs s) = (presence s \<or> Set True \<in> set evs)"
  using assms unfolding exec_def
proof (induction evs arbitrary: s)
  case Nil
  then show ?case by simp
next
  case (Cons e evs)
  have st: "stateful (handle e s)" using Cons.prems(1) by (simp add: handle_config)
  have rest: "Set False \<notin> set evs" using Cons.prems(3) by simp
  show ?case
  proof (cases e)
    case (Set v)
    with Cons.prems(3) have v: "v" by auto
    have p: "pending (loop (handle e s)) = []"
      using Cons.prems(1,2) by (simp add: Set v trigger_setValue_def onTrigger_True_pending)
    have m: "motion (handle e s)" "presence (handle e s)"
      by (simp_all add: Set v trigger_setValue_def onTrigger_True_fields)
    from Cons.IH [OF st p rest] m show ?thesis by (simp add: Set v)
  next
    case (Wait ms)
    have eq: "handle e s = s\<lparr>loop := idle_until (Some (now (loop s) + ms)) (loop s)\<rparr>"
      using Cons.prems(2) by (simp add: Wait run_idle)
    have p: "pending (loop (handle e s)) = []" using Cons.prems(2) by (simp add: eq)
    have m: "motion (handle e s) = motion s" "presence (handle e s) = presence s"
      by (simp_all add: eq)
    have ne: "(Set True \<in> set (e # evs)) = (Set True \<in> set evs)" using Wait by simp
    have f: "fold handle (e # evs) s = fold handle evs (handle e s)" by simp
    from Cons.IH [OF st p rest] show ?thesis unfolding f ne m .
  qed
qed

lemma settle_on_only:
  assumes "stateful (Presence cfg)" and "Set True \<in> set evs" and "Set False \<notin> set evs"
  shows "motion (settle (exec evs (Presence cfg))) \<and> presence (settle (exec evs (Presence cfg)))"
proof -
  have "pending (loop (Presence cfg)) = []" by (simp add: Presence_def)
  with assms have e: "pending (loop (exec evs (Presence cfg))) = []"
    "motion (exec evs (Presence cfg))" "presence (exec evs (Presence cfg))"
    using exec_on_only [of "Presence cfg" evs] by simp_all
  then show ?thesis by (simp add: settle_def run_idle)
qed

section \<open>The claims\<close>

text \<open>
  C1. The claim: no signal ever has two pending decay timers, in particular not after two
  trigger-OFF events in a row. In the simple accessory the branch for OFF sets new timers
  without clearing the ones it holds: after two OFF events the motion signal and the
  occupancy signal have two pending decay timers each, whatever the configuration. So it
  is with the switch that is not stateful, turned on at 0 s and off at 0.1 s: its reset at
  1 s is a second OFF. The other two accessories clear the timer a signal holds before
  they set a new one, and in every state they can reach a signal has at most one.
\<close>

theorem onTrigger_off_twice_two_timers:
  "live MotionDecay (loop (exec [Set False, Set False] (Presence cfg))) = 2 \<and>
   live PresenceDecay (loop (exec [Set False, Set False] (Presence cfg))) = 2 \<and>
   live MotionDecay (loop (exec [Set True, Wait 100, Set False, Wait 900]
     (Presence scenario_A))) = 2 \<and>
   live D_MotionDecay (d_loop (d_exec devs (d_Presence cfg))) \<le> 1 \<and>
   live D_OccupancyDecay (d_loop (d_exec devs (d_Presence cfg))) \<le> 1 \<and>
   live (SetOccupancyFalse i) (f_loop (f_exec fevs (f_Presence tcfg))) \<le> 1"
proof -
  have "live MotionDecay (loop (exec [Set False, Set False] (Presence cfg))) = 2 \<and>
   live PresenceDecay (loop (exec [Set False, Set False] (Presence cfg))) = 2"
    by (simp add: simple_eval)
  moreover have "live MotionDecay (loop (exec [Set True, Wait 100, Set False, Wait 900]
     (Presence scenario_A))) = 2"
    by (simp add: simple_eval config_defs)
  ultimately show ?thesis
    using d_one_decay [of devs cfg] f_one_decay [of i fevs tcfg] by simp
qed

text \<open>
  C2, as stated: after firings at 0 s and at 1 s, B decays at 10 s as first scheduled.
  It does not: at 10 s the occupancy of B is still true and its only timer is due at 11 s.
\<close>

theorem fanout_second_firing_counterexample:
  "now (f_loop (f_exec [SwitchSet True, F_Wait 1000, SwitchSet True, F_Wait 9000]
      (f_Presence scenario_C))) = 10000 \<and>
   occupancy (triggers (f_exec [SwitchSet True, F_Wait 1000, SwitchSet True, F_Wait 9000]
      (f_Presence scenario_C)) ! 1) \<and>
   pending (f_loop (f_exec [SwitchSet True, F_Wait 1000, SwitchSet True, F_Wait 9000]
      (f_Presence scenario_C))) = [Timer 4 11000 (SetOccupancyFalse 1)]"
  by (simp add: fanout_eval scenario_C_def)

text \<open>
  C2, amended: one firing at 0 s sets the occupancy of A and of B; A turns false at 3 s
  and B at 10 s. A second firing at 1 s moves both decays: A turns false at 4 s and B at
  11 s.
\<close>

theorem fanout_scenario:
  "map occupancy (triggers (f_exec [SwitchSet True] (f_Presence scenario_C))) = [True, True] \<and>
   map occupancy (triggers (f_exec [SwitchSet True, F_Wait 2999] (f_Presence scenario_C)))
     = [True, True] \<and>
   map occupancy (triggers (f_exec [SwitchSet True, F_Wait 3000] (f_Presence scenario_C)))
     = [False, True] \<and>
   map occupancy (triggers (f_exec [SwitchSet True, F_Wait 9999] (f_Presence scenario_C)))
     = [False, True] \<and>
   map occupancy (triggers (f_exec [SwitchSet True, F_Wait 10000] (f_Presence scenario_C)))
     = [False, False] \<and>
   map occupancy (triggers (f_exec [SwitchSet True, F_Wait 1000, SwitchSet True, F_Wait 2999]
      (f_Presence scenario_C))) = [True, True] \<and>
   map occupancy (triggers (f_exec [SwitchSet True, F_Wait 1000, SwitchSet True, F_Wait 3000]
      (f_Presence scenario_C))) = [False, True] \<and>
   map occupancy (triggers (f_exec [SwitchSet True, F_Wait 1000, SwitchSet True, F_Wait 9999]
      (f_Presence scenario_C))) = [False, True] \<and>
   map occupancy (triggers (f_exec [SwitchSet True, F_Wait 1000, SwitchSet True, F_Wait 10000]
      (f_Presence scenario_C))) = [False, False]"
  by (simp add: fanout_eval scenario_C_def)

text \<open>
  C5, as stated: after any sequence of trigger events and after all delays have passed,
  every signal is false. With a stateful switch a single trigger-ON sets no timer at all:
  nothing is pending and both signals stay true.
\<close>

theorem settle_stateful_counterexample:
  "motion (settle (exec [Set True] (Presence stateful_config))) \<and>
   presence (settle (exec [Set True] (Presence stateful_config))) \<and>
   pending (loop (settle (exec [Set True] (Presence stateful_config)))) = []"
  by (simp add: simple_eval config_defs)

text \<open>
  C5, amended: after any sequence of events, once all delays have passed no timer is
  pending. In the simple accessory both signals are false then if the switch is not
  stateful, or if the last trigger event was a trigger-OFF; with a stateful switch, at
  least one trigger-ON and no trigger-OFF, no timer is ever set and both signals are true.
  In the accessory with a list of sensors the occupancy of every trigger is false.
\<close>

theorem settle_signals_off:
  "pending (loop (settle (exec evs (Presence cfg)))) = [] \<and>
   (\<not> stateful (Presence cfg) \<or> (\<exists>evs' ws. evs = evs' @ Set False # map Wait ws) \<longrightarrow>
      \<not> motion (settle (exec evs (Presence cfg))) \<and>
      \<not> presence (settle (exec evs (Presence cfg)))) \<and>
   (stateful (Presence cfg) \<and> Set True \<in> set evs \<and> Set False \<notin> set evs \<longrightarrow>
      motion (settle (exec evs (Presence cfg))) \<and>
      presence (settle (exec evs (Presence cfg)))) \<and>
   pending (f_loop (f_settle (f_exec fevs (f_Presence tcfg)))) = [] \<and>
   (\<forall>i < length tcfg. \<not> occupancy (triggers (f_settle (f_exec fevs (f_Presence tcfg))) ! i))"
proof (intro conjI impI allI)
  show "pending (loop (settle (exec evs (Presence cfg)))) = []" by (rule settle_quiet)
  show "pending (f_loop (f_settle (f_exec fevs (f_Presence tcfg)))) = []" by (rule f_settle_quiet)
next
  assume "\<not> stateful (Presence cfg) \<or> (\<exists>evs' ws. evs = evs' @ Set False # map Wait ws)"
  then have "\<not> motion (settle (exec evs (Presence cfg))) \<and>
      \<not> presence (settle (exec evs (Presence cfg)))"
    using settle_nonstateful [of cfg evs] settle_last_off [of _ _ cfg] by blast
  then show "\<not> motion (settle (exec evs (Presence cfg)))"
    and "\<not> presence (settle (exec evs (Presence cfg)))" by simp_all
next
  assume "stateful (Presence cfg) \<and> Set True \<in> set evs \<and> Set False \<notin> set evs"
  then have "motion (settle (exec evs (Presence cfg))) \<and> presence (settle (exec evs (Presence cfg)))"
    using settle_on_only [of cfg evs] by blast
  then show "motion (settle (exec evs (Presence cfg)))"
    and "presence (settle (exec evs (Presence cfg)))" by simp_all
next
  fix i assume i: "i < length tcfg"
  let ?s = "f_exec fevs (f_Presence tcfg)"
  have inv: "f_inv ?s" by (simp add: f_inv_exec f_inv_Presence)
  have "f_covered (f_Presence tcfg)"
    by (simp add: f_covered_def f_Presence_def Trigger_def split_def)
  then have "f_covered ?s" using f_inv_Presence by (intro f_covered_exec)
  with inv have "f_covered (f_settle ?s)" unfolding f_settle_def by (rule f_covered_run)
  moreover have "length (triggers (f_settle ?s)) = length tcfg"
    by (simp add: f_settle_def f_length_run f_length_exec)
  ultimately show "\<not> occupancy (triggers (f_settle ?s) ! i)"
    using i f_settle_quiet [of ?s] by (auto simp: f_covered_def)
qed

text \<open>
  A switch that is not stateful; a stateful switch with a trigger-OFF last; a stateful
  switch with two trigger-ON events and no trigger-OFF; and the two triggers A and B.
\<close>

theorem settle_signals_off_witness:
  "\<not> stateful (Presence scenario_A) \<and>
   \<not> motion (settle (exec [Set True, Wait 100, Set False] (Presence scenario_A))) \<and>
   \<not> presence (settle (exec [Set True, Wait 100, Set False] (Presence scenario_A))) \<and>
   pending (loop (settle (exec [Set True, Wait 100, Set False] (Presence scenario_A)))) = [] \<and>
   stateful (Presence stateful_config) \<and>
   \<not> motion (settle (exec [Set True, Wait 100, Set False] (Presence stateful_config))) \<and>
   Set True \<in> set [Set True, Wait 5000, Set True] \<and>
   Set False \<notin> set [Set True, Wait 5000, Set True] \<and>
   motion (settle (exec [Set True, Wait 5000, Set True] (Presence stateful_config))) \<and>
   presence (settle (exec [Set True, Wait 5000, Set True] (Presence stateful_config))) \<and>
   (1::nat) < length scenario_C \<and>
   \<not> occupancy (triggers (f_settle (f_exec [SwitchSet True] (f_Presence scenario_C))) ! 1) \<and>
   pending (f_loop (f_settle (f_exec [SwitchSet True] (f_Presence scenario_C)))) = []"
proof -
  have a: "\<not> stateful (Presence scenario_A)" "stateful (Presence stateful_config)"
    by (simp_all add: Presence_def config_defs or_bool_def)
  have b: "(1::nat) < length scenario_C" by (simp add: scenario_C_def)
  have c: "Set True \<in> set [Set True, Wait 5000, Set True]"
    "Set False \<notin> set [Set True, Wait 5000, Set True]"
    by simp_all
  have d: "[Set True, Wait 100, Set False] = [Set True, Wait 100] @ Set False # map Wait []"
    by simp
  show ?thesis
    using a b c d
      settle_signals_off [of "[Set True, Wait 100, Set False]" scenario_A
        "[SwitchSet True]" scenario_C]
      settle_signals_off [of "[Set True, Wait 100, Set False]" stateful_config
        "[SwitchSet True]" scenario_C]
      settle_signals_off [of "[Set True, Wait 5000, Set True]" stateful_config
        "[SwitchSet True]" scenario_C]
    by blast
qed

text \<open>
  C6. The claim: a trigger-ON cancels both pending decay timers, sets motion and occupancy
  and notifies both, sets the one-second reset of the switch if and only if the switch is
  not stateful, and sets no decay timer; the reset writes the switch and leaves the
  signals. The handlers do all of this for the timers the accessory holds, and in the
  accessory with two switches no decay timer is pending after the event in any state it
  can reach. In the simple accessory the timers that an earlier trigger-OFF has let go of
  are not cancelled: after two trigger-OFF events, a trigger-ON leaves one motion timer
  and one occupancy timer pending, whatever the configuration. So it is with delays of
  2 s and 5 s and a switch that is not stateful, turned on at 0 s, off at 0.1 s, reset at
  1 s and on again at 1.5 s: at 2.1 s the switch is on and motion turns false.
\<close>

theorem trigger_on_effects:
  "motion (onTrigger True s) \<and> presence (onTrigger True s) \<and>
   updates (onTrigger True s) = updates s @ [(Motion, True), (Occupancy, True)] \<and>
   trigger (onTrigger True s) = trigger s \<and>
   pending (loop (onTrigger True s)) =
     filter (\<lambda>t. Some (tid t) \<noteq> motionTimer s \<and> Some (tid t) \<noteq> occupancyTimer s)
       (pending (loop s)) @
     (if stateful s then []
      else [Timer (next_id (loop s)) (now (loop s) + 1000) TriggerReset]) \<and>
   \<not> trigger (fire TriggerReset u) \<and> motion (fire TriggerReset u) = motion u \<and>
   presence (fire TriggerReset u) = presence u \<and>
   d_motion (onMotion True d) \<and> d_occupancy (onMotion True d) \<and>
   d_updates (onMotion True d) =
     d_updates d @ [(D_Motion, True), (D_Occupancy, True), (D_OccupancyTrigger, True)] \<and>
   d_motionTrigger (onMotion True d) = d_motionTrigger d \<and>
   pending (d_loop (onMotion True d)) =
     filter (\<lambda>t. Some (tid t) \<noteq> d_motionTimer d \<and> Some (tid t) \<noteq> d_occupancyTimer d)
       (pending (d_loop d)) @
     (if d_stateful d then []
      else [Timer (next_id (d_loop d)) (now (d_loop d) + 1000) D_MotionTriggerReset]) \<and>
   \<not> d_motionTrigger (d_fire D_MotionTriggerReset v) \<and>
   d_motion (d_fire D_MotionTriggerReset v) = d_motion v \<and>
   d_occupancy (d_fire D_MotionTriggerReset v) = d_occupancy v \<and>
   d_updates (d_fire D_MotionTriggerReset v) = d_updates v \<and>
   live D_MotionDecay (d_loop (onMotion True (d_exec devs (d_Presence cfg)))) = 0 \<and>
   live D_OccupancyDecay (d_loop (onMotion True (d_exec devs (d_Presence cfg)))) = 0 \<and>
   live MotionDecay (loop (exec [Set False, Set False, Set True] (Presence cfg))) = 1 \<and>
   live PresenceDecay (loop (exec [Set False, Set False, Set True] (Presence cfg))) = 1 \<and>
   live MotionDecay (loop (exec [Set True, Wait 100, Set False, Wait 1400, Set True]
     (Presence scenario_A))) = 1 \<and>
   live PresenceDecay (loop (exec [Set True, Wait 100, Set False, Wait 1400, Set True]
     (Presence scenario_A))) = 1 \<and>
   motion (exec [Set True, Wait 100, Set False, Wait 1400, Set True, Wait 599]
     (Presence scenario_A)) \<and>
   trigger (exec [Set True, Wait 100, Set False, Wait 1400, Set True, Wait 600]
     (Presence scenario_A)) \<and>
   \<not> motion (exec [Set True, Wait 100, Set False, Wait 1400, Set True, Wait 600]
     (Presence scenario_A))"
proof -
  have p: "pending (loop (onTrigger True s)) =
     filter (\<lambda>t. Some (tid t) \<noteq> motionTimer s \<and> Some (tid t) \<noteq> occupancyTimer s)
       (pending (loop s)) @
     (if stateful s then []
      else [Timer (next_id (loop s)) (now (loop s) + 1000) TriggerReset])"
    by (rule onTrigger_True_pending)
  have r: "\<not> trigger (fire TriggerReset u) \<and> motion (fire TriggerReset u) = motion u \<and>
      presence (fire TriggerReset u) = presence u"
    by (simp add: trigger_setValue_def onTrigger_False_eq)
  have dp: "pending (d_loop (onMotion True d)) =
     filter (\<lambda>t. Some (tid t) \<noteq> d_motionTimer d \<and> Some (tid t) \<noteq> d_occupancyTimer d)
       (pending (d_loop d)) @
     (if d_stateful d then []
      else [Timer (next_id (d_loop d)) (now (d_loop d) + 1000) D_MotionTriggerReset])"
    by (simp add: onMotion_True_eq d_kept_def)
  have dr: "\<not> d_motionTrigger (d_fire D_MotionTriggerReset v) \<and>
      d_motion (d_fire D_MotionTriggerReset v) = d_motion v \<and>
      d_occupancy (d_fire D_MotionTriggerReset v) = d_occupancy v \<and>
      d_updates (d_fire D_MotionTriggerReset v) = d_updates v"
    by (simp add: motionTrigger_setValue_def onMotion_False_eq)
  have dl: "live D_MotionDecay (d_loop (onMotion True (d_exec devs (d_Presence cfg)))) = 0 \<and>
      live D_OccupancyDecay (d_loop (onMotion True (d_exec devs (d_Presence cfg)))) = 0"
    by (simp add: live_def onMotion_True_eq d_kept_live [OF d_inv_reached])
  have o1: "live MotionDecay (loop (exec [Set False, Set False, Set True] (Presence cfg))) = 1 \<and>
      live PresenceDecay (loop (exec [Set False, Set False, Set True] (Presence cfg))) = 1"
    by (simp add: simple_eval)
  have o2: "live MotionDecay (loop (exec [Set True, Wait 100, Set False, Wait 1400, Set True]
     (Presence scenario_A))) = 1 \<and>
   live PresenceDecay (loop (exec [Set True, Wait 100, Set False, Wait 1400, Set True]
     (Presence scenario_A))) = 1"
    by (simp add: simple_eval config_defs)
  have o3: "motion (exec [Set True, Wait 100, Set False, Wait 1400, Set True, Wait 599]
     (Presence scenario_A))"
    by (simp add: simple_eval config_defs)
  have o4: "trigger (exec [Set True, Wait 100, Set False, Wait 1400, Set True, Wait 600]
     (Presence scenario_A)) \<and>
   \<not> motion (exec [Set True, Wait 100, Set False, Wait 1400, Set True, Wait 600]
     (Presence scenario_A))"
    by (simp add: simple_eval config_defs)
  show ?thesis
    using p r dp dr dl o1 o2 o3 o4
    by (simp add: onTrigger_True_fields onMotion_True_eq)
qed

text \<open>
  C7. A trigger-OFF leaves both signals as they are and sets the motion timer
  \<open>motionDelay\<close> seconds and the occupancy timer \<open>occupancyDelay\<close> seconds ahead; in
  every state the accessory can reach, motion is false once \<open>motionDelay\<close> seconds have
  passed and occupancy once \<open>occupancyDelay\<close> seconds have passed, if no event arrives
  before. With delays of 2 s and 5 s and the trigger-OFF at 0.1 s, motion is true at
  2.099 s and false at 2.1 s, occupancy is true at 5.099 s and false at 5.1 s.
\<close>

theorem trigger_off_schedules_decay:
  "motion (onTrigger False s) = motion s \<and> presence (onTrigger False s) = presence s \<and>
   updates (onTrigger False s) = updates s \<and>
   pending (loop (onTrigger False s)) =
     pending (loop s) @
     [Timer (next_id (loop s)) (now (loop s) + motionDelay s * 1000) MotionDecay,
      Timer (Suc (next_id (loop s))) (now (loop s) + occupancyDelay s * 1000) PresenceDecay] \<and>
   (s = exec evs (Presence cfg) \<longrightarrow>
      \<not> motion (run (Some (now (loop s) + motionDelay s * 1000)) (onTrigger False s)) \<and>
      \<not> presence (run (Some (now (loop s) + occupancyDelay s * 1000)) (onTrigger False s))) \<and>
   motion (exec [Set True, Wait 100, Set False, Wait 1999] (Presence scenario_A)) \<and>
   \<not> motion (exec [Set True, Wait 100, Set False, Wait 2000] (Presence scenario_A)) \<and>
   presence (exec [Set True, Wait 100, Set False, Wait 4999] (Presence scenario_A)) \<and>
   \<not> presence (exec [Set True, Wait 100, Set False, Wait 5000] (Presence scenario_A))"
proof -
  have a: "\<not> motion (run (Some (now (loop s) + motionDelay s * 1000)) (onTrigger False s)) \<and>
      \<not> presence (run (Some (now (loop s) + occupancyDelay s * 1000)) (onTrigger False s))"
    if "s = exec evs (Presence cfg)"
  proof -
    have "wf_loop (loop s)" unfolding that by (simp add: wf_exec wf_Presence)
    then show ?thesis using off_decays_by_deadline by blast
  qed
  have b: "motion (exec [Set True, Wait 100, Set False, Wait 1999] (Presence scenario_A))"
    by (simp add: simple_eval config_defs)
  have c: "\<not> motion (exec [Set True, Wait 100, Set False, Wait 2000] (Presence scenario_A))"
    by (simp add: simple_eval config_defs)
  have d: "presence (exec [Set True, Wait 100, Set False, Wait 4999] (Presence scenario_A))"
    by (simp add: simple_eval config_defs)
  have e: "\<not> presence (exec [Set True, Wait 100, Set False, Wait 5000] (Presence scenario_A))"
    by (simp add: simple_eval config_defs)
  show ?thesis
    using a b c d e by (simp add: onTrigger_False_eq)
qed

text \<open>A trigger-OFF with a stateful switch, after a trigger-ON.\<close>

theorem trigger_off_schedules_decay_witness:
  "motion (exec [Set True] (Presence stateful_config)) \<and>
   \<not> motion (run (Some (now (loop (exec [Set True] (Presence stateful_config))) +
         motionDelay (exec [Set True] (Presence stateful_config)) * 1000))
       (onTrigger False (exec [Set True] (Presence stateful_config)))) \<and>
   \<not> presence (run (Some (now (loop (exec [Set True] (Presence stateful_config))) +
         occupancyDelay (exec [Set True] (Presence stateful_config)) * 1000))
       (onTrigger False (exec [Set True] (Presence stateful_config))))"
proof -
  have "motion (exec [Set True] (Presence stateful_config))"
    by (simp add: simple_eval config_defs)
  then show ?thesis
    using trigger_off_schedules_decay [of "exec [Set True] (Presence stateful_config)"
        "[Set True]" stateful_config]
    by blast
qed

text \<open>
  C8. In a state the accessory with two switches can reach, with motion true and a motion
  timer pending: the occupancy-OFF event sets motion false and notifies it, resets the
  motion switch, and takes the motion timer off the list, so that no motion timer is
  pending and motion stays false however long the scheduler runs; the only occupancy
  timer pending is the new one, due \<open>occupancyDelay\<close> seconds after the event.
\<close>

theorem occupancy_off_preempts_motion:
  assumes "s = d_exec evs (d_Presence cfg)" and "d_motion s"
    and "t \<in> set (pending (d_loop s))" and "cb t = D_MotionDecay"
  shows "\<not> d_motion (onOccupancy False s) \<and> \<not> d_motionTrigger (onOccupancy False s) \<and>
    d_updates (onOccupancy False s) = d_updates s @ [(D_Motion, False), (D_MotionTrigger, False)] \<and>
    t \<notin> set (pending (d_loop (onOccupancy False s))) \<and>
    live D_MotionDecay (d_loop (onOccupancy False s)) = 0 \<and>
    \<not> d_motion (d_run lim (onOccupancy False s)) \<and>
    filter (\<lambda>u. cb u = D_OccupancyDecay) (pending (d_loop (onOccupancy False s))) =
      [Timer (next_id (d_loop s)) (now (d_loop s) + d_occupancyDelay s * 1000) D_OccupancyDecay] \<and>
    d_occupancy (onOccupancy False s) = d_occupancy s"
proof -
  have inv: "d_inv s" unfolding assms(1) by (rule d_inv_reached)
  have off: "\<not> d_motion (onOccupancy False s)" by (simp add: onOccupancy_False_eq)
  have none: "filter (\<lambda>u. cb u = D_MotionDecay) (pending (d_loop (onOccupancy False s))) = []"
    by (simp add: onOccupancy_False_eq d_decay_single [OF inv] del: filter_append)
  then have gone: "t \<notin> set (pending (d_loop (onOccupancy False s)))"
    using assms(4) by (auto simp: filter_empty_conv)
  have one: "filter (\<lambda>u. cb u = D_OccupancyDecay) (pending (d_loop (onOccupancy False s))) =
      [Timer (next_id (d_loop s)) (now (d_loop s) + d_occupancyDelay s * 1000) D_OccupancyDecay]"
    by (simp add: onOccupancy_False_eq d_decay_single [OF inv] del: filter_append)
  have stay: "\<not> d_motion (d_run lim (onOccupancy False s))"
    using off by (rule d_run_motion_off)
  show ?thesis
    using off none gone one stay by (simp add: live_def) (simp add: onOccupancy_False_eq)
qed

text \<open>
  Motion is on and the motion switch was turned off at 0 s, so that motion is to decay at
  2 s; occupancy-OFF arrives at 1 s. It takes the timer off the list and sets motion
  false, and motion is false at 2 s.
\<close>

theorem occupancy_off_preempts_motion_witness:
  "d_motion (d_exec [MotionSet True, MotionSet False, D_Wait 1000] (d_Presence stateful_config)) \<and>
   Timer 0 2000 D_MotionDecay
     \<in> set (pending (d_loop (d_exec [MotionSet True, MotionSet False, D_Wait 1000]
         (d_Presence stateful_config)))) \<and>
   Timer 0 2000 D_MotionDecay
     \<notin> set (pending (d_loop (onOccupancy False
         (d_exec [MotionSet True, MotionSet False, D_Wait 1000] (d_Presence stateful_config))))) \<and>
   \<not> d_motion (onOccupancy False
       (d_exec [MotionSet True, MotionSet False, D_Wait 1000] (d_Presence stateful_config))) \<and>
   \<not> d_motion (d_run (Some 2000) (onOccupancy False
       (d_exec [MotionSet True, MotionSet False, D_Wait 1000] (d_Presence stateful_config))))"
proof -
  have a: "d_motion (d_exec [MotionSet True, MotionSet False, D_Wait 1000]
      (d_Presence stateful_config))"
    by (simp add: dual_eval config_defs)
  have b: "Timer 0 2000 D_MotionDecay
     \<in> set (pending (d_loop (d_exec [MotionSet True, MotionSet False, D_Wait 1000]
         (d_Presence stateful_config))))"
    by (simp add: dual_eval config_defs)
  have c: "cb (Timer 0 2000 D_MotionDecay) = D_MotionDecay" by simp
  show ?thesis
    using a b occupancy_off_preempts_motion [OF refl a b c, of "Some 2000"] by blast
qed

text \<open>
  C10. In the accessory with two switches an occupancy-ON event sets the occupancy signal
  and notifies it, and nothing else: motion, the motion switch and the occupancy switch
  keep their values, no timer is set, and both held timers are cleared. In a state the
  accessory can reach no decay timer is pending afterwards; if no reset of the motion
  switch is pending either, motion keeps its value however long the scheduler runs.
\<close>

theorem occupancy_on_frame:
  "d_occupancy (onOccupancy True s) \<and>
   d_updates (onOccupancy True s) = d_updates s @ [(D_Occupancy, True)] \<and>
   d_motion (onOccupancy True s) = d_motion s \<and>
   d_motionTrigger (onOccupancy True s) = d_motionTrigger s \<and>
   d_occupancyTrigger (onOccupancy True s) = d_occupancyTrigger s \<and>
   d_motionTimer (onOccupancy True s) = d_motionTimer s \<and>
   d_occupancyTimer (onOccupancy True s) = d_occupancyTimer s \<and>
   next_id (d_loop (onOccupancy True s)) = next_id (d_loop s) \<and>
   pending (d_loop (onOccupancy True s)) =
     filter (\<lambda>t. Some (tid t) \<noteq> d_motionTimer s \<and> Some (tid t) \<noteq> d_occupancyTimer s)
       (pending (d_loop s)) \<and>
   (s = d_exec evs (d_Presence cfg) \<longrightarrow>
      live D_MotionDecay (d_loop (onOccupancy True s)) = 0 \<and>
      live D_OccupancyDecay (d_loop (onOccupancy True s)) = 0 \<and>
      (live D_MotionTriggerReset (d_loop s) = 0 \<longrightarrow>
         d_motion (d_run lim (onOccupancy True s)) = d_motion s))"
proof -
  have r: "live D_MotionDecay (d_loop (onOccupancy True s)) = 0 \<and>
      live D_OccupancyDecay (d_loop (onOccupancy True s)) = 0 \<and>
      (live D_MotionTriggerReset (d_loop s) = 0 \<longrightarrow>
         d_motion (d_run lim (onOccupancy True s)) = d_motion s)"
    if "s = d_exec evs (d_Presence cfg)"
  proof -
    have inv: "d_inv s" unfolding that by (rule d_inv_reached)
    have a: "live D_MotionDecay (d_loop (onOccupancy True s)) = 0"
      and b: "live D_OccupancyDecay (d_loop (onOccupancy True s)) = 0"
      by (simp_all add: live_def onOccupancy_True_eq d_kept_live [OF inv])
    have c: "d_motion (d_run lim (onOccupancy True s)) = d_motion s"
      if "live D_MotionTriggerReset (d_loop s) = 0"
    proof -
      have "cb t \<noteq> D_MotionTriggerReset" if "t \<in> set (pending (d_loop s))" for t
        using \<open>live D_MotionTriggerReset (d_loop s) = 0\<close> that
        by (auto simp: live_def filter_empty_conv)
      moreover have "set (d_kept s) \<subseteq> set (pending (d_loop s))"
        by (auto simp: d_kept_def)
      ultimately have "d_kept s = []"
        using d_kept_resets [OF inv] by (cases "d_kept s") auto
      then have "pending (d_loop (onOccupancy True s)) = []"
        by (simp add: onOccupancy_True_eq)
      then show ?thesis
        by (simp add: d_run_idle) (simp add: onOccupancy_True_eq)
    qed
    from a b c show ?thesis by simp
  qed
  show ?thesis
    using r by (simp add: onOccupancy_True_eq d_kept_def)
qed

text \<open>
  With a stateful motion switch: motion on, the motion switch turned off at 0 s, occupancy-ON
  at 1 s. The motion timer was pending; afterwards none is, and motion is still true a day
  later.
\<close>

theorem occupancy_on_frame_witness:
  "live D_MotionDecay (d_loop (d_exec [MotionSet True, MotionSet False, D_Wait 1000]
      (d_Presence stateful_config))) = 1 \<and>
   live D_MotionTriggerReset (d_loop (d_exec [MotionSet True, MotionSet False, D_Wait 1000]
      (d_Presence stateful_config))) = 0 \<and>
   d_motion (d_exec [MotionSet True, MotionSet False, D_Wait 1000] (d_Presence stateful_config)) \<and>
   live D_MotionDecay (d_loop (onOccupancy True
      (d_exec [MotionSet True, MotionSet False, D_Wait 1000] (d_Presence stateful_config)))) = 0 \<and>
   d_motion (d_run (Some 86400000) (onOccupancy True
      (d_exec [MotionSet True, MotionSet False, D_Wait 1000] (d_Presence stateful_config))))"
proof -
  have a: "live D_MotionDecay (d_loop (d_exec [MotionSet True, MotionSet False, D_Wait 1000]
      (d_Presence stateful_config))) = 1"
    by (simp add: dual_eval config_defs)
  have b: "live D_MotionTriggerReset (d_loop (d_exec [MotionSet True, MotionSet False, D_Wait 1000]
      (d_Presence stateful_config))) = 0"
    by (simp add: dual_eval config_defs)
  have c: "d_motion (d_exec [MotionSet True, MotionSet False, D_Wait 1000]
      (d_Presence stateful_config))"
    by (simp add: dual_eval config_defs)
  show ?thesis
    using a b c
      occupancy_on_frame [of "d_exec [MotionSet True, MotionSet False, D_Wait 1000]
        (d_Presence stateful_config)" "[MotionSet True, MotionSet False, D_Wait 1000]"
        stateful_config "Some 86400000"]
    by blast
qed

text \<open>
  C9. The handler of the shared switch does not read the value written: writing OFF does
  what writing ON does. In a state the accessory can reach, after a write of OFF every
  trigger has its occupancy set and holds a new timer, the only decay timer pending for
  it, due its own delay after the write; the reset of the switch is pending, due one
  second after the write; and one notification per trigger was sent, in the order of the
  configuration.
\<close>

theorem onSet_ignores_value:
  assumes "s = f_exec evs (f_Presence tcfg)" and "i < length tcfg"
  shows "onSet False s = onSet True s \<and>
    occupancy (triggers (onSet False s) ! i) \<and>
    timer (triggers (onSet False s) ! i) = Some (next_id (f_loop s) + i) \<and>
    filter (\<lambda>t. cb t = SetOccupancyFalse i) (pending (f_loop (onSet False s))) =
      [Timer (next_id (f_loop s) + i) (now (f_loop s) + delay (triggers s ! i) * 1000)
         (SetOccupancyFalse i)] \<and>
    Timer (next_id (f_loop s) + length tcfg) (now (f_loop s) + 1000) SwitchOff
      \<in> set (pending (f_loop (onSet False s))) \<and>
    f_updates (onSet False s) = f_updates s @ map (\<lambda>k. (k, True)) [0..<length tcfg]"
proof -
  have inv: "f_inv s" unfolding assms(1) by (simp add: f_inv_exec f_inv_Presence)
  have n: "length (triggers s) = length tcfg" unfolding assms(1) by (rule f_length_exec)
  with assms(2) have i: "i < length (triggers s)" by simp
  have same: "onSet False s = onSet True s" by (simp add: onSet_def)
  have ar: "armed (next_id (f_loop s) + i) (now (f_loop s)) i (onSet False s)"
    using inv i by (rule armed_onSet)
  have one: "filter (\<lambda>t. cb t = SetOccupancyFalse i) (pending (f_loop (onSet False s))) =
      [Timer (next_id (f_loop s) + i) (now (f_loop s) + delay (triggers s ! i) * 1000)
         (SetOccupancyFalse i)]"
    using inv i by (rule onSet_decay_single)
  note f = fold_arm [OF inv, of "length (triggers s)"]
  have sw: "Timer (next_id (f_loop s) + length tcfg) (now (f_loop s) + 1000) SwitchOff
      \<in> set (pending (f_loop (onSet False s)))"
    using f n by (simp add: onSet_fields)
  have up: "f_updates (onSet False s) = f_updates s @ map (\<lambda>k. (k, True)) [0..<length tcfg]"
    using f n by (simp add: onSet_fields)
  from same ar one sw up show ?thesis by (simp add: armed_def)
qed

text \<open>
  The two triggers A and B, the switch written ON at 0 s and OFF at 1 s: the write of OFF
  sets the occupancy of B again and moves its timer.
\<close>

theorem onSet_ignores_value_witness:
  "(1::nat) < length scenario_C \<and>
   onSet False (f_exec [SwitchSet True, F_Wait 1000] (f_Presence scenario_C)) =
     onSet True (f_exec [SwitchSet True, F_Wait 1000] (f_Presence scenario_C)) \<and>
   occupancy (triggers (onSet False
     (f_exec [SwitchSet True, F_Wait 1000] (f_Presence scenario_C))) ! 1) \<and>
   filter (\<lambda>t. cb t = SetOccupancyFalse 1) (pending (f_loop (onSet False
     (f_exec [SwitchSet True, F_Wait 1000] (f_Presence scenario_C))))) =
     [Timer 4 11000 (SetOccupancyFalse 1)]"
proof -
  have a: "(1::nat) < length scenario_C" by (simp add: scenario_C_def)
  have b: "next_id (f_loop (f_exec [SwitchSet True, F_Wait 1000] (f_Presence scenario_C))) = 3"
    "now (f_loop (f_exec [SwitchSet True, F_Wait 1000] (f_Presence scenario_C))) = 1000"
    "delay (triggers (f_exec [SwitchSet True, F_Wait 1000] (f_Presence scenario_C)) ! 1) = 10"
    by (simp_all add: fanout_eval scenario_C_def)
  note c = onSet_ignores_value [OF refl a, of "[SwitchSet True, F_Wait 1000]", unfolded b]
  have d: "(3::nat) + 1 = 4" "(1000::nat) + 10 * 1000 = 11000" by simp_all
  show ?thesis
    using a c [unfolded d] by blast
qed

text \<open>
  C3, as stated: once the decay timer has run, the signal holds no timer handle. No
  callback writes the timer field: after the decay has run, the motion signal of the
  accessory with two switches, trigger A of the accessory with a list of sensors and the
  motion signal of the simple accessory are false, no decay timer is pending for them, and
  each still holds the handle of the timer that ran.
\<close>

theorem decay_keeps_handle_counterexample:
  "\<not> d_motion (d_exec [MotionSet True, MotionSet False, D_Wait 2000] (d_Presence stateful_config)) \<and>
   pending (d_loop (d_exec [MotionSet True, MotionSet False, D_Wait 2000]
     (d_Presence stateful_config))) = [] \<and>
   d_motionTimer (d_exec [MotionSet True, MotionSet False, D_Wait 2000]
     (d_Presence stateful_config)) = Some 0 \<and>
   \<not> occupancy (triggers (f_exec [SwitchSet True, F_Wait 3000] (f_Presence scenario_C)) ! 0) \<and>
   live (SetOccupancyFalse 0) (f_loop (f_exec [SwitchSet True, F_Wait 3000]
     (f_Presence scenario_C))) = 0 \<and>
   timer (triggers (f_exec [SwitchSet True, F_Wait 3000] (f_Presence scenario_C)) ! 0) = Some 0 \<and>
   \<not> motion (exec [Set True, Set False, Wait 2000] (Presence stateful_config)) \<and>
   live MotionDecay (loop (exec [Set True, Set False, Wait 2000] (Presence stateful_config))) = 0 \<and>
   motionTimer (exec [Set True, Set False, Wait 2000] (Presence stateful_config)) = Some 0"
proof -
  have "\<not> d_motion (d_exec [MotionSet True, MotionSet False, D_Wait 2000] (d_Presence stateful_config)) \<and>
   pending (d_loop (d_exec [MotionSet True, MotionSet False, D_Wait 2000]
     (d_Presence stateful_config))) = [] \<and>
   d_motionTimer (d_exec [MotionSet True, MotionSet False, D_Wait 2000]
     (d_Presence stateful_config)) = Some 0"
    by (simp add: dual_eval config_defs)
  moreover have "\<not> occupancy (triggers (f_exec [SwitchSet True, F_Wait 3000] (f_Presence scenario_C)) ! 0) \<and>
   live (SetOccupancyFalse 0) (f_loop (f_exec [SwitchSet True, F_Wait 3000]
     (f_Presence scenario_C))) = 0 \<and>
   timer (triggers (f_exec [SwitchSet True, F_Wait 3000] (f_Presence scenario_C)) ! 0) = Some 0"
    by (simp add: fanout_eval scenario_C_def)
  moreover have "\<not> motion (exec [Set True, Set False, Wait 2000] (Presence stateful_config)) \<and>
   live MotionDecay (loop (exec [Set True, Set False, Wait 2000] (Presence stateful_config))) = 0 \<and>
   motionTimer (exec [Set True, Set False, Wait 2000] (Presence stateful_config)) = Some 0"
    by (simp add: simple_eval config_defs)
  ultimately show ?thesis by blast
qed

text \<open>
  C3, amended. In the accessory with two switches and in the one with a list of sensors,
  in every state they can reach: scheduling the decay of a signal first clears the timer
  the signal holds, then sets a timer, the only decay timer pending for the signal, and
  stores its handle. When the scheduler runs that timer it takes it off the list, sets the
  signal false and notifies; the handle stays in the field. The timers of the simple
  accessory run in the same way.
\<close>

theorem schedule_decay_keeps_handle:
  assumes "d = d_exec devs (d_Presence cfg)" and "u = f_exec fevs (f_Presence tcfg)"
    and "i < length tcfg" and "s = exec evs (Presence cfg')"
  shows "d_motionTimer (onMotion False d) = Some (next_id (d_loop d)) \<and>
    pending (d_loop (onMotion False d)) =
      filter (\<lambda>x. Some (tid x) \<noteq> d_motionTimer d \<and> Some (tid x) \<noteq> d_occupancyTimer d)
        (pending (d_loop d)) @
      [Timer (next_id (d_loop d)) (now (d_loop d) + d_motionDelay d * 1000) D_MotionDecay] \<and>
    filter (\<lambda>x. cb x = D_MotionDecay) (pending (d_loop (onMotion False d))) =
      [Timer (next_id (d_loop d)) (now (d_loop d) + d_motionDelay d * 1000) D_MotionDecay] \<and>
    (next_timer lim (d_loop d) = Some t \<and> cb t = D_MotionDecay \<longrightarrow>
       d_step lim d =
         Some (d\<lparr>d_motion := False, d_updates := d_updates d @ [(D_Motion, False)],
                 d_loop := take_timer t (d_loop d)\<rparr>) \<and>
       d_motionTimer d = Some (tid t) \<and> t \<notin> set (pending (take_timer t (d_loop d)))) \<and>
    timer (triggers (arm i u) ! i) = Some (next_id (f_loop u)) \<and>
    pending (f_loop (arm i u)) =
      filter (\<lambda>x. Some (tid x) \<noteq> timer (triggers u ! i)) (pending (f_loop u)) @
      [Timer (next_id (f_loop u)) (now (f_loop u) + delay (triggers u ! i) * 1000)
         (SetOccupancyFalse i)] \<and>
    filter (\<lambda>x. cb x = SetOccupancyFalse i) (pending (f_loop (arm i u))) =
      [Timer (next_id (f_loop u)) (now (f_loop u) + delay (triggers u ! i) * 1000)
         (SetOccupancyFalse i)] \<and>
    (next_timer flim (f_loop u) = Some ft \<and> cb ft = SetOccupancyFalse i \<longrightarrow>
       f_step flim u = Some (setOccupancy i False (u\<lparr>f_loop := take_timer ft (f_loop u)\<rparr>)) \<and>
       \<not> occupancy (triggers (setOccupancy i False (u\<lparr>f_loop := take_timer ft (f_loop u)\<rparr>)) ! i) \<and>
       f_updates (setOccupancy i False (u\<lparr>f_loop := take_timer ft (f_loop u)\<rparr>)) =
         f_updates u @ [(i, False)] \<and>
       timer (triggers (setOccupancy i False (u\<lparr>f_loop := take_timer ft (f_loop u)\<rparr>)) ! i) =
         Some (tid ft) \<and>
       ft \<notin> set (pending (take_timer ft (f_loop u)))) \<and>
    (next_timer slim (loop s) = Some st \<and> cb st = MotionDecay \<longrightarrow>
       step slim s =
         Some (s\<lparr>motion := False, updates := updates s @ [(Motion, False)],
                 loop := take_timer st (loop s)\<rparr>) \<and>
       st \<notin> set (pending (take_timer st (loop s))))"
proof -
  have dinv: "d_inv d" unfolding assms(1) by (rule d_inv_reached)
  have finv: "f_inv u" unfolding assms(2) by (simp add: f_inv_exec f_inv_Presence)
  have "length (triggers u) = length tcfg" unfolding assms(2) by (rule f_length_exec)
  with assms(3) have i: "i < length (triggers u)" by simp
  have d1: "d_motionTimer (onMotion False d) = Some (next_id (d_loop d))"
    by (simp add: onMotion_False_eq)
  have d2: "pending (d_loop (onMotion False d)) =
      filter (\<lambda>x. Some (tid x) \<noteq> d_motionTimer d \<and> Some (tid x) \<noteq> d_occupancyTimer d)
        (pending (d_loop d)) @
      [Timer (next_id (d_loop d)) (now (d_loop d) + d_motionDelay d * 1000) D_MotionDecay]"
    by (simp add: onMotion_False_eq d_kept_def)
  have d3: "filter (\<lambda>x. cb x = D_MotionDecay) (pending (d_loop (onMotion False d))) =
      [Timer (next_id (d_loop d)) (now (d_loop d) + d_motionDelay d * 1000) D_MotionDecay]"
    by (simp add: onMotion_False_eq d_decay_single [OF dinv] del: filter_append)
  have d4: "d_step lim d =
         Some (d\<lparr>d_motion := False, d_updates := d_updates d @ [(D_Motion, False)],
                 d_loop := take_timer t (d_loop d)\<rparr>) \<and>
       d_motionTimer d = Some (tid t) \<and> t \<notin> set (pending (take_timer t (d_loop d)))"
    if "next_timer lim (d_loop d) = Some t" and "cb t = D_MotionDecay"
  proof -
    have "t \<in> set (pending (d_loop d))" using that(1) by (rule next_timer_mem)
    with dinv that(2) have "d_motionTimer d = Some (tid t)" unfolding d_inv_def by blast
    then show ?thesis using that by (simp add: d_step_def not_pending_taken)
  qed
  have f1: "timer (triggers (arm i u) ! i) = Some (next_id (f_loop u))"
    using i by (simp add: arm_timer)
  have f2: "pending (f_loop (arm i u)) =
      filter (\<lambda>x. Some (tid x) \<noteq> timer (triggers u ! i)) (pending (f_loop u)) @
      [Timer (next_id (f_loop u)) (now (f_loop u) + delay (triggers u ! i) * 1000)
         (SetOccupancyFalse i)]"
    using i by (rule arm_pending_in)
  have f3: "filter (\<lambda>x. cb x = SetOccupancyFalse i) (pending (f_loop (arm i u))) =
      [Timer (next_id (f_loop u)) (now (f_loop u) + delay (triggers u ! i) * 1000)
         (SetOccupancyFalse i)]"
    using finv i by (rule arm_decay_single)
  have f4: "f_step flim u = Some (setOccupancy i False (u\<lparr>f_loop := take_timer ft (f_loop u)\<rparr>)) \<and>
       \<not> occupancy (triggers (setOccupancy i False (u\<lparr>f_loop := take_timer ft (f_loop u)\<rparr>)) ! i) \<and>
       f_updates (setOccupancy i False (u\<lparr>f_loop := take_timer ft (f_loop u)\<rparr>)) =
         f_updates u @ [(i, False)] \<and>
       timer (triggers (setOccupancy i False (u\<lparr>f_loop := take_timer ft (f_loop u)\<rparr>)) ! i) =
         Some (tid ft) \<and>
       ft \<notin> set (pending (take_timer ft (f_loop u)))"
    if "next_timer flim (f_loop u) = Some ft" and "cb ft = SetOccupancyFalse i"
  proof -
    have "ft \<in> set (pending (f_loop u))" using that(1) by (rule next_timer_mem)
    with finv that(2) have "timer (triggers u ! i) = Some (tid ft)" unfolding f_inv_def by blast
    then show ?thesis
      using that i
      by (simp add: f_step_def not_pending_taken setOccupancy_fields setOccupancy_occupancy)
        (simp add: setOccupancy_def)
  qed
  have s4: "step slim s =
         Some (s\<lparr>motion := False, updates := updates s @ [(Motion, False)],
                 loop := take_timer st (loop s)\<rparr>) \<and>
       st \<notin> set (pending (take_timer st (loop s)))"
    if "next_timer slim (loop s) = Some st" and "cb st = MotionDecay"
    using that by (simp add: step_def not_pending_taken motion_updateValue_def)
  from d1 d2 d3 d4 f1 f2 f3 f4 s4 show ?thesis by blast
qed

text \<open>
  The motion timer of the accessory with two switches, the timer of trigger A and the
  motion timer of the simple accessory, each the next one to run.
\<close>

theorem schedule_decay_keeps_handle_witness:
  "(0::nat) < length scenario_C \<and>
   next_timer None (d_loop (d_exec [MotionSet False] (d_Presence no_config))) =
     Some (Timer 0 3600000 D_MotionDecay) \<and>
   cb (Timer 0 3600000 D_MotionDecay) = D_MotionDecay \<and>
   d_motionTimer (d_exec [MotionSet False] (d_Presence no_config)) =
     Some (tid (Timer 0 3600000 D_MotionDecay)) \<and>
   next_timer None (f_loop (f_exec [SwitchSet True, F_Wait 1000] (f_Presence scenario_C))) =
     Some (Timer 0 3000 (SetOccupancyFalse 0)) \<and>
   cb (Timer 0 3000 (SetOccupancyFalse 0)) = SetOccupancyFalse 0 \<and>
   timer (triggers (setOccupancy 0 False
     ((f_exec [SwitchSet True, F_Wait 1000] (f_Presence scenario_C))
        \<lparr>f_loop := take_timer (Timer 0 3000 (SetOccupancyFalse 0))
           (f_loop (f_exec [SwitchSet True, F_Wait 1000] (f_Presence scenario_C)))\<rparr>)) ! 0) =
     Some (tid (Timer 0 3000 (SetOccupancyFalse 0))) \<and>
   next_timer None (loop (exec [Set False] (Presence no_config))) =
     Some (Timer 0 3600000 MotionDecay) \<and>
   cb (Timer 0 3600000 MotionDecay) = MotionDecay \<and>
   Timer 0 3600000 MotionDecay
     \<notin> set (pending (take_timer (Timer 0 3600000 MotionDecay)
         (loop (exec [Set False] (Presence no_config)))))"
proof -
  have a: "(0::nat) < length scenario_C" by (simp add: scenario_C_def)
  have b: "next_timer None (d_loop (d_exec [MotionSet False] (d_Presence no_config))) =
     Some (Timer 0 3600000 D_MotionDecay)"
    by (simp add: dual_eval config_defs)
  have c: "next_timer None (f_loop (f_exec [SwitchSet True, F_Wait 1000] (f_Presence scenario_C))) =
     Some (Timer 0 3000 (SetOccupancyFalse 0))"
    by (simp add: fanout_eval scenario_C_def)
  have d: "next_timer None (loop (exec [Set False] (Presence no_config))) =
     Some (Timer 0 3600000 MotionDecay)"
    by (simp add: simple_eval config_defs)
  have e: "cb (Timer 0 3600000 D_MotionDecay) = D_MotionDecay"
    "cb (Timer 0 3000 (SetOccupancyFalse 0)) = SetOccupancyFalse 0"
    "cb (Timer 0 3600000 MotionDecay) = MotionDecay"
    by simp_all
  show ?thesis
    using a b c d e
      schedule_decay_keeps_handle [where devs = "[MotionSet False]" and cfg = no_config
          and lim = None and t = "Timer 0 3600000 D_MotionDecay"
          and fevs = "[SwitchSet True, F_Wait 1000]" and tcfg = scenario_C and i = 0
          and flim = None and ft = "Timer 0 3000 (SetOccupancyFalse 0)"
          and evs = "[Set False]" and cfg' = no_config
          and slim = None and st = "Timer 0 3600000 MotionDecay", OF refl refl a refl]
    by blast
qed




end
